theory Spec2Isabelle
  imports Complex_Main "HOL-Library.Word" "HOL-Library.Multiset"
begin

unbundle bit_operations_syntax

section \<open>The floating-point unit\<close>

text \<open>
  The C sources compute on \<^verbatim>\<open>float\<close> and \<^verbatim>\<open>double\<close> and call NEON intrinsics.
  Their arithmetic is taken as a record of operations over a type \<open>'f\<close> of
  single-precision values and a type \<open>'d\<close> of double-precision values, so that
  every definition below follows the C text and every general theorem holds for
  whatever the hardware computes.  A concrete IEEE 754 instance follows in a later
  section and is used to run the code on concrete inputs.
\<close>

record ('f, 'd) fpu =
  f_zero :: 'f                               \<comment> \<open>\<^verbatim>\<open>0.0f\<close>\<close>
  f_add :: "'f \<Rightarrow> 'f \<Rightarrow> 'f"                  \<comment> \<open>\<^verbatim>\<open>float + float\<close>\<close>
  f_mul :: "'f \<Rightarrow> 'f \<Rightarrow> 'f"                  \<comment> \<open>\<^verbatim>\<open>float * float\<close>\<close>
  f_mla :: "'f \<Rightarrow> 'f \<Rightarrow> 'f \<Rightarrow> 'f"            \<comment> \<open>one lane of \<^verbatim>\<open>vmlaq_f32(a, b, c)\<close>: a + b * c\<close>
  f_rsqrte :: "'f \<Rightarrow> 'f"                     \<comment> \<open>one lane of \<^verbatim>\<open>vrsqrteq_f32\<close>\<close>
  f_rsqrts :: "'f \<Rightarrow> 'f \<Rightarrow> 'f"               \<comment> \<open>one lane of \<^verbatim>\<open>vrsqrtsq_f32\<close>\<close>
  f_load :: "32 word \<Rightarrow> 'f"                 \<comment> \<open>the float stored as these 32 bits\<close>
  f_store :: "'f \<Rightarrow> 32 word"                \<comment> \<open>the 32 bits a float is stored as\<close>
  widen :: "'f \<Rightarrow> 'd"                        \<comment> \<open>the cast \<^verbatim>\<open>(double)\<close>\<close>
  d_zero :: 'd                               \<comment> \<open>the double whose bytes are all zero\<close>
  d_add :: "'d \<Rightarrow> 'd \<Rightarrow> 'd"                  \<comment> \<open>\<^verbatim>\<open>double + double\<close>\<close>
  d_mul :: "'d \<Rightarrow> 'd \<Rightarrow> 'd"                  \<comment> \<open>\<^verbatim>\<open>double * double\<close>\<close>
  d_less :: "'d \<Rightarrow> 'd \<Rightarrow> bool"                \<comment> \<open>\<^verbatim>\<open>double < double\<close>\<close>

subsection \<open>NEON intrinsics on four lanes\<close>

type_synonym 'f float32x4 = "'f \<times> 'f \<times> 'f \<times> 'f"

definition vmovq_n_f32 :: "'f \<Rightarrow> 'f float32x4" where
  "vmovq_n_f32 v = (v, v, v, v)"

definition vdupq_n_f32 :: "'f \<Rightarrow> 'f float32x4" where
  "vdupq_n_f32 v = (v, v, v, v)"

text \<open>\<^verbatim>\<open>vld1q_f32(x + i)\<close> reads \<^verbatim>\<open>x[i .. i+3]\<close>; the callers keep \<open>i + 4\<close> within the size.\<close>

definition vld1q_f32 :: "'f list \<Rightarrow> nat \<Rightarrow> 'f float32x4" where
  "vld1q_f32 x i = (x ! i, x ! (i + 1), x ! (i + 2), x ! (i + 3))"

definition vst1q_f32 :: "'f list \<Rightarrow> nat \<Rightarrow> 'f float32x4 \<Rightarrow> 'f list" where
  "vst1q_f32 v i r =
     (case r of (a, b, c, d) \<Rightarrow> v[i := a, i + 1 := b, i + 2 := c, i + 3 := d])"

definition vmlaq_f32 ::
  "('f, 'd) fpu \<Rightarrow> 'f float32x4 \<Rightarrow> 'f float32x4 \<Rightarrow> 'f float32x4 \<Rightarrow> 'f float32x4" where
  "vmlaq_f32 fp s x y =
     (case s of (s0, s1, s2, s3) \<Rightarrow> case x of (x0, x1, x2, x3) \<Rightarrow> case y of (y0, y1, y2, y3) \<Rightarrow>
        (f_mla fp s0 x0 y0, f_mla fp s1 x1 y1, f_mla fp s2 x2 y2, f_mla fp s3 x3 y3))"

definition vmulq_f32 ::
  "('f, 'd) fpu \<Rightarrow> 'f float32x4 \<Rightarrow> 'f float32x4 \<Rightarrow> 'f float32x4" where
  "vmulq_f32 fp x y =
     (case x of (x0, x1, x2, x3) \<Rightarrow> case y of (y0, y1, y2, y3) \<Rightarrow>
        (f_mul fp x0 y0, f_mul fp x1 y1, f_mul fp x2 y2, f_mul fp x3 y3))"

definition vrsqrteq_f32 :: "('f, 'd) fpu \<Rightarrow> 'f float32x4 \<Rightarrow> 'f float32x4" where
  "vrsqrteq_f32 fp x =
     (case x of (x0, x1, x2, x3) \<Rightarrow>
        (f_rsqrte fp x0, f_rsqrte fp x1, f_rsqrte fp x2, f_rsqrte fp x3))"

definition vrsqrtsq_f32 ::
  "('f, 'd) fpu \<Rightarrow> 'f float32x4 \<Rightarrow> 'f float32x4 \<Rightarrow> 'f float32x4" where
  "vrsqrtsq_f32 fp x y =
     (case x of (x0, x1, x2, x3) \<Rightarrow> case y of (y0, y1, y2, y3) \<Rightarrow>
        (f_rsqrts fp x0 y0, f_rsqrts fp x1 y1, f_rsqrts fp x2 y2, f_rsqrts fp x3 y3))"

text \<open>\<^verbatim>\<open>vaddvq_f32\<close> adds across the vector pairwise: (a + b) + (c + d).\<close>

definition vaddvq_f32 :: "('f, 'd) fpu \<Rightarrow> 'f float32x4 \<Rightarrow> 'f" where
  "vaddvq_f32 fp x = (case x of (a, b, c, d) \<Rightarrow> f_add fp (f_add fp a b) (f_add fp c d))"

definition vgetq_lane_f32_0 :: "'f float32x4 \<Rightarrow> 'f" where
  "vgetq_lane_f32_0 x = fst x"

section \<open>The dot-product kernels\<close>

text \<open>
  \<^verbatim>\<open>f32_dot_product_neon\<close> of \<^verbatim>\<open>src/C/cosine_neon.c\<close>.  The size and the counter are
  \<^verbatim>\<open>uint64_t\<close>; \<open>i + 4\<close> cannot wrap for a size that an array in memory can have, so
  both are natural numbers here.  The result replaces the write to \<^verbatim>\<open>*result\<close>.
\<close>

function neon_dot_main ::
  "('f, 'd) fpu \<Rightarrow> 'f list \<Rightarrow> 'f list \<Rightarrow> nat \<Rightarrow> nat \<Rightarrow> 'f float32x4 \<Rightarrow> nat \<times> 'f float32x4" where
  "neon_dot_main fp x y n i sum_v =
     (if i + 4 \<le> n
      then neon_dot_main fp x y n (i + 4)
             (vmlaq_f32 fp sum_v (vld1q_f32 x i) (vld1q_f32 y i))
      else (i, sum_v))"
  by pat_completeness auto
termination
  by (relation "measure (\<lambda>(fp, x, y, n, i, sum_v). n - i)") auto

function neon_dot_tail ::
  "('f, 'd) fpu \<Rightarrow> 'f list \<Rightarrow> 'f list \<Rightarrow> nat \<Rightarrow> nat \<Rightarrow> 'f \<Rightarrow> 'f" where
  "neon_dot_tail fp x y n i s =
     (if i < n
      then neon_dot_tail fp x y n (i + 1) (f_add fp s (f_mul fp (x ! i) (y ! i)))
      else s)"
  by pat_completeness auto
termination
  by (relation "measure (\<lambda>(fp, x, y, n, i, s). n - i)") auto

definition f32_dot_product_neon :: "('f, 'd) fpu \<Rightarrow> 'f list \<Rightarrow> 'f list \<Rightarrow> nat \<Rightarrow> 'd" where
  "f32_dot_product_neon fp x y n =
     (case neon_dot_main fp x y n 0 (vmovq_n_f32 (f_zero fp)) of
        (i, sum_v) \<Rightarrow> widen fp (neon_dot_tail fp x y n i (vaddvq_f32 fp sum_v)))"

text \<open>The NEON branch of \<^verbatim>\<open>f32_dot_product_simd\<close> in \<^verbatim>\<open>src/C/cosine_simd.c\<close>.\<close>

function simd_dot_main ::
  "('f, 'd) fpu \<Rightarrow> 'f list \<Rightarrow> 'f list \<Rightarrow> nat \<Rightarrow> nat \<Rightarrow> 'f float32x4 \<Rightarrow> nat \<times> 'f float32x4" where
  "simd_dot_main fp x y n i sum_v =
     (if i + 4 \<le> n
      then simd_dot_main fp x y n (i + 4)
             (vmlaq_f32 fp sum_v (vld1q_f32 x i) (vld1q_f32 y i))
      else (i, sum_v))"
  by pat_completeness auto
termination
  by (relation "measure (\<lambda>(fp, x, y, n, i, sum_v). n - i)") auto

function simd_dot_tail ::
  "('f, 'd) fpu \<Rightarrow> 'f list \<Rightarrow> 'f list \<Rightarrow> nat \<Rightarrow> nat \<Rightarrow> 'f \<Rightarrow> 'f" where
  "simd_dot_tail fp x y n i s =
     (if i < n
      then simd_dot_tail fp x y n (i + 1) (f_add fp s (f_mul fp (x ! i) (y ! i)))
      else s)"
  by pat_completeness auto
termination
  by (relation "measure (\<lambda>(fp, x, y, n, i, s). n - i)") auto

definition f32_dot_product_simd :: "('f, 'd) fpu \<Rightarrow> 'f list \<Rightarrow> 'f list \<Rightarrow> nat \<Rightarrow> 'd" where
  "f32_dot_product_simd fp x y n =
     (case simd_dot_main fp x y n 0 (vmovq_n_f32 (f_zero fp)) of
        (i, sum_v) \<Rightarrow> widen fp (simd_dot_tail fp x y n i (vaddvq_f32 fp sum_v)))"

text \<open>\<^verbatim>\<open>f32_dot_product_neon\<close> of \<^verbatim>\<open>src/simd/cosine_neon.c\<close>.\<close>

function old_dot_main ::
  "('f, 'd) fpu \<Rightarrow> 'f list \<Rightarrow> 'f list \<Rightarrow> nat \<Rightarrow> nat \<Rightarrow> 'f float32x4 \<Rightarrow> nat \<times> 'f float32x4" where
  "old_dot_main fp x y n i sum_v =
     (if i + 4 \<le> n
      then old_dot_main fp x y n (i + 4)
             (vmlaq_f32 fp sum_v (vld1q_f32 x i) (vld1q_f32 y i))
      else (i, sum_v))"
  by pat_completeness auto
termination
  by (relation "measure (\<lambda>(fp, x, y, n, i, sum_v). n - i)") auto

function old_dot_tail ::
  "('f, 'd) fpu \<Rightarrow> 'f list \<Rightarrow> 'f list \<Rightarrow> nat \<Rightarrow> nat \<Rightarrow> 'f \<Rightarrow> 'f" where
  "old_dot_tail fp x y n i s =
     (if i < n
      then old_dot_tail fp x y n (i + 1) (f_add fp s (f_mul fp (x ! i) (y ! i)))
      else s)"
  by pat_completeness auto
termination
  by (relation "measure (\<lambda>(fp, x, y, n, i, s). n - i)") auto

definition simd_dir_f32_dot_product_neon ::
  "('f, 'd) fpu \<Rightarrow> 'f list \<Rightarrow> 'f list \<Rightarrow> nat \<Rightarrow> 'd" where
  "simd_dir_f32_dot_product_neon fp x y n =
     (case old_dot_main fp x y n 0 (vmovq_n_f32 (f_zero fp)) of
        (i, sum_v) \<Rightarrow> widen fp (old_dot_tail fp x y n i (vaddvq_f32 fp sum_v)))"

declare neon_dot_main.simps [simp del] neon_dot_tail.simps [simp del]
declare simd_dot_main.simps [simp del] simd_dot_tail.simps [simp del]
declare old_dot_main.simps [simp del] old_dot_tail.simps [simp del]

text \<open>
  The dot product in the words of the specification: single-precision multiply-accumulate
  over the aligned portion, reduced horizontally, widened to double at that step; the
  scalar tail computed and added in double precision.
\<close>

function claimed_tail ::
  "('f, 'd) fpu \<Rightarrow> 'f list \<Rightarrow> 'f list \<Rightarrow> nat \<Rightarrow> nat \<Rightarrow> 'd \<Rightarrow> 'd" where
  "claimed_tail fp x y n i s =
     (if i < n
      then claimed_tail fp x y n (i + 1)
             (d_add fp s (d_mul fp (widen fp (x ! i)) (widen fp (y ! i))))
      else s)"
  by pat_completeness auto
termination
  by (relation "measure (\<lambda>(fp, x, y, n, i, s). n - i)") auto

definition dotProduct_claimed :: "('f, 'd) fpu \<Rightarrow> 'f list \<Rightarrow> 'f list \<Rightarrow> nat \<Rightarrow> 'd" where
  "dotProduct_claimed fp x y n =
     (case neon_dot_main fp x y n 0 (vmovq_n_f32 (f_zero fp)) of
        (i, sum_v) \<Rightarrow> claimed_tail fp x y n i (widen fp (vaddvq_f32 fp sum_v)))"

declare claimed_tail.simps [simp del]

section \<open>Normalisation\<close>

text \<open>
  \<^verbatim>\<open>norm_neon\<close> of \<^verbatim>\<open>src/C/cosine_neon.c\<close>, on the array \<^verbatim>\<open>v[0 .. d-1]\<close>; the result
  is the array after the in-place scaling.  The counter is \<^verbatim>\<open>uint32_t\<close>: \<open>i + 4\<close>
  wraps to 0 once \<open>i = 2^32 - 4\<close> is reached, which happens from \<open>d = 2^32 - 4\<close> on; the
  counters below are natural numbers, and the loader's model checks \<open>d \<le> 2^32 - 5\<close>.
\<close>

function norm_sq_main ::
  "('f, 'd) fpu \<Rightarrow> 'f list \<Rightarrow> nat \<Rightarrow> nat \<Rightarrow> 'f float32x4 \<Rightarrow> nat \<times> 'f float32x4" where
  "norm_sq_main fp v d i sum4 =
     (if i + 4 \<le> d
      then norm_sq_main fp v d (i + 4) (vmlaq_f32 fp sum4 (vld1q_f32 v i) (vld1q_f32 v i))
      else (i, sum4))"
  by pat_completeness auto
termination
  by (relation "measure (\<lambda>(fp, v, d, i, sum4). d - i)") auto

function norm_sq_tail :: "('f, 'd) fpu \<Rightarrow> 'f list \<Rightarrow> nat \<Rightarrow> nat \<Rightarrow> 'f \<Rightarrow> 'f" where
  "norm_sq_tail fp v d i s =
     (if i < d
      then norm_sq_tail fp v d (i + 1) (f_add fp s (f_mul fp (v ! i) (v ! i)))
      else s)"
  by pat_completeness auto
termination
  by (relation "measure (\<lambda>(fp, v, d, i, s). d - i)") auto

function norm_scale_main ::
  "('f, 'd) fpu \<Rightarrow> 'f list \<Rightarrow> nat \<Rightarrow> nat \<Rightarrow> 'f float32x4 \<Rightarrow> nat \<times> 'f list" where
  "norm_scale_main fp v d i scale4 =
     (if i + 4 \<le> d
      then norm_scale_main fp (vst1q_f32 v i (vmulq_f32 fp (vld1q_f32 v i) scale4)) d (i + 4) scale4
      else (i, v))"
  by pat_completeness auto
termination
  by (relation "measure (\<lambda>(fp, v, d, i, scale4). d - i)") auto

function norm_scale_tail :: "('f, 'd) fpu \<Rightarrow> 'f list \<Rightarrow> nat \<Rightarrow> nat \<Rightarrow> 'f \<Rightarrow> 'f list" where
  "norm_scale_tail fp v d i inv_norm =
     (if i < d
      then norm_scale_tail fp (v[i := f_mul fp (v ! i) inv_norm]) d (i + 1) inv_norm
      else v)"
  by pat_completeness auto
termination
  by (relation "measure (\<lambda>(fp, v, d, i, inv_norm). d - i)") auto

text \<open>The sum of squares that \<^verbatim>\<open>norm_neon\<close> computes first.\<close>

definition norm_neon_sum :: "('f, 'd) fpu \<Rightarrow> 'f list \<Rightarrow> nat \<Rightarrow> 'f" where
  "norm_neon_sum fp v d =
     (case norm_sq_main fp v d 0 (vmovq_n_f32 (f_zero fp)) of
        (i, sum4) \<Rightarrow> norm_sq_tail fp v d i (vaddvq_f32 fp sum4))"

text \<open>The reciprocal square root: the estimate and the two refinement lines, lane 0.\<close>

definition norm_neon_inv :: "('f, 'd) fpu \<Rightarrow> 'f \<Rightarrow> 'f" where
  "norm_neon_inv fp s =
     (let s4 = vdupq_n_f32 s;
          y = vrsqrteq_f32 fp s4;
          y = vmulq_f32 fp y (vrsqrtsq_f32 fp (vmulq_f32 fp s4 (vmulq_f32 fp y y)) y);
          y = vmulq_f32 fp y (vrsqrtsq_f32 fp (vmulq_f32 fp s4 (vmulq_f32 fp y y)) y)
      in vgetq_lane_f32_0 y)"

definition norm_neon :: "('f, 'd) fpu \<Rightarrow> 'f list \<Rightarrow> nat \<Rightarrow> 'f list" where
  "norm_neon fp v d =
     (let inv_norm = norm_neon_inv fp (norm_neon_sum fp v d);
          scale4 = vdupq_n_f32 inv_norm
      in case norm_scale_main fp v d 0 scale4 of
           (i, v1) \<Rightarrow> norm_scale_tail fp v1 d i inv_norm)"

text \<open>
  The scalar fallback \<^verbatim>\<open>norm_simd\<close> of \<^verbatim>\<open>src/C/cosine_simd.c\<close>, compiled for a target
  with neither NEON nor AVX, over that target's \<^verbatim>\<open>float\<close> arithmetic.
\<close>

record 'f scalar_fpu =
  s_zero :: 'f                        \<comment> \<open>\<^verbatim>\<open>0.0f\<close>\<close>
  s_one :: 'f                         \<comment> \<open>\<^verbatim>\<open>1.0f\<close>\<close>
  s_add :: "'f \<Rightarrow> 'f \<Rightarrow> 'f"
  s_mul :: "'f \<Rightarrow> 'f \<Rightarrow> 'f"
  s_div :: "'f \<Rightarrow> 'f \<Rightarrow> 'f"
  s_sqrtf :: "'f \<Rightarrow> 'f"
  s_eq :: "'f \<Rightarrow> 'f \<Rightarrow> bool"            \<comment> \<open>\<^verbatim>\<open>float == float\<close>\<close>

function scalar_sq_loop :: "'f scalar_fpu \<Rightarrow> 'f list \<Rightarrow> nat \<Rightarrow> nat \<Rightarrow> 'f \<Rightarrow> 'f" where
  "scalar_sq_loop sp v d i s =
     (if i < d
      then scalar_sq_loop sp v d (i + 1) (s_add sp s (s_mul sp (v ! i) (v ! i)))
      else s)"
  by pat_completeness auto
termination
  by (relation "measure (\<lambda>(sp, v, d, i, s). d - i)") auto

function scalar_scale_loop :: "'f scalar_fpu \<Rightarrow> 'f list \<Rightarrow> nat \<Rightarrow> nat \<Rightarrow> 'f \<Rightarrow> 'f list" where
  "scalar_scale_loop sp v d i inv1 =
     (if i < d
      then scalar_scale_loop sp (v[i := s_mul sp (v ! i) inv1]) d (i + 1) inv1
      else v)"
  by pat_completeness auto
termination
  by (relation "measure (\<lambda>(sp, v, d, i, inv1). d - i)") auto

definition norm_simd_scalar :: "'f scalar_fpu \<Rightarrow> 'f list \<Rightarrow> nat \<Rightarrow> 'f list" where
  "norm_simd_scalar sp v d =
     (let s = scalar_sq_loop sp v d 0 (s_zero sp)
      in if s_eq sp s (s_zero sp) then v
         else scalar_scale_loop sp v d 0 (s_div sp (s_one sp) (s_sqrtf sp s)))"

declare norm_sq_main.simps [simp del] norm_sq_tail.simps [simp del]
declare norm_scale_main.simps [simp del] norm_scale_tail.simps [simp del]
declare scalar_sq_loop.simps [simp del] scalar_scale_loop.simps [simp del]

section \<open>The corpus and the top-K search\<close>

text \<open>
  \<^verbatim>\<open>src/C/chunks.c\<close>.  The arena is the file's bytes; a pointer into the arena is
  the offset it points at.  A \<^verbatim>\<open>Chunk\<close> holds the pointers and numbers the loader
  stored; the embedding is read through its pointer.  32-bit values are read in
  little-endian order, the byte order of the NEON targets.
\<close>

type_synonym byte = "8 word"

record Chunk =
  c_id :: nat
  c_parent :: nat
  c_file :: nat
  c_ext :: nat
  c_text :: nat
  c_start_ln :: "32 word"
  c_end_ln :: "32 word"
  c_dim :: "32 word"
  c_emb :: nat

record ChunkIndex =
  arena :: "byte list"
  N :: "32 word"
  chunks :: "Chunk list"

definition u32_at :: "byte list \<Rightarrow> nat \<Rightarrow> 32 word" where
  "u32_at buf p =
     ucast (buf ! p) OR push_bit 8 (ucast (buf ! (p + 1))) OR
     push_bit 16 (ucast (buf ! (p + 2))) OR push_bit 24 (ucast (buf ! (p + 3)))"

definition floats_at :: "('f, 'd) fpu \<Rightarrow> byte list \<Rightarrow> nat \<Rightarrow> nat \<Rightarrow> 'f list" where
  "floats_at fp buf p d = map (\<lambda>k. f_load fp (u32_at buf (p + 4 * k))) [0..<d]"

text \<open>The array \<^verbatim>\<open>c->emb[0 .. c->dim - 1]\<close>.\<close>

definition emb_of :: "('f, 'd) fpu \<Rightarrow> ChunkIndex \<Rightarrow> Chunk \<Rightarrow> 'f list" where
  "emb_of fp ci c = floats_at fp (arena ci) (c_emb c) (unat (c_dim c))"

text \<open>
  Undefined behaviour of the C program is an outcome of the model: a read outside the
  heap array, a read outside the arena, \<^verbatim>\<open>int\<close> arithmetic that overflows, and a
  counter that wraps so that its loop never exits.
\<close>

datatype fault = HeapOutOfBounds | ArenaOutOfBounds | SignedOverflow | CounterWraps

record 'd Pair_t =
  score :: 'd
  idx :: "32 word"

text \<open>
  \<^verbatim>\<open>sift_down(h, K)\<close>: the loop always starts at the root.  \<^verbatim>\<open>K\<close>, \<^verbatim>\<open>i\<close> and \<^verbatim>\<open>c\<close> are
  \<^verbatim>\<open>int\<close>; \<^verbatim>\<open>i\<close> is never negative, and \<^verbatim>\<open>2*i+1\<close> overflows from \<open>i = 2^30\<close> on.
\<close>

function sift_down_from ::
  "('f, 'd) fpu \<Rightarrow> 'd Pair_t list \<Rightarrow> int \<Rightarrow> nat \<Rightarrow> fault + 'd Pair_t list" where
  "sift_down_from fp h K i =
     (if 2147483647 < 2 * int i + 1 then Inl SignedOverflow
      else if K \<le> int (2 * i + 1) then Inr h
      else
        let c = (if int (2 * i + 1) + 1 < K \<and>
                    d_less fp (score (h ! (2 * i + 1 + 1))) (score (h ! (2 * i + 1)))
                 then 2 * i + 1 + 1 else 2 * i + 1)
        in if d_less fp (score (h ! c)) (score (h ! i))
           then sift_down_from fp (h[i := h ! c, c := h ! i]) K c
           else Inr h)"
  by pat_completeness auto
termination
  by (relation "measure (\<lambda>(fp, h, K, i). nat K - i)") (auto simp: Let_def split: if_splits)

definition sift_down :: "('f, 'd) fpu \<Rightarrow> 'd Pair_t list \<Rightarrow> int \<Rightarrow> fault + 'd Pair_t list" where
  "sift_down fp h K = sift_down_from fp h K 0"

text \<open>
  The loop \<^verbatim>\<open>for (int p = (K - 2) / 2; p >= 0; p--) sift_down(heap, K);\<close> of \<^verbatim>\<open>ci_search\<close>:
  its body does not use \<^verbatim>\<open>p\<close>.
\<close>

function build_loop ::
  "('f, 'd) fpu \<Rightarrow> 'd Pair_t list \<Rightarrow> int \<Rightarrow> int \<Rightarrow> fault + 'd Pair_t list" where
  "build_loop fp h K p =
     (if 0 \<le> p
      then (case sift_down fp h K of Inl e \<Rightarrow> Inl e | Inr h' \<Rightarrow> build_loop fp h' K (p - 1))
      else Inr h)"
  by pat_completeness auto
termination
  by (relation "measure (\<lambda>(fp, h, K, p). nat (p + 1))") auto

text \<open>
  One round of the scan loop of \<^verbatim>\<open>ci_search\<close>, for record \<open>i\<close>, on the heap array
  (\<^verbatim>\<open>calloc(K, sizeof(Pair))\<close>, so \<open>K\<close> entries) and the fill count \<^verbatim>\<open>sz\<close>.  The
  conversion of the \<^verbatim>\<open>uint32_t\<close> \<^verbatim>\<open>K\<close> to \<^verbatim>\<open>int\<close> is \<open>sint\<close>; \<^verbatim>\<open>(K - 2) / 2\<close> is
  computed in \<^verbatim>\<open>uint32_t\<close> and wraps for \<open>K < 2\<close>.  With \<open>K = 0\<close> the array has no
  entry and \<^verbatim>\<open>heap[0]\<close> is outside it.
\<close>

definition visit ::
  "('f, 'd) fpu \<Rightarrow> ChunkIndex \<Rightarrow> 'f list \<Rightarrow> 32 word \<Rightarrow> 32 word \<Rightarrow> nat \<Rightarrow>
   'd Pair_t list \<times> 32 word \<Rightarrow> fault + 'd Pair_t list \<times> 32 word" where
  "visit fp ci q dim' K i st =
     (case st of (heap, sz) \<Rightarrow>
      let c = chunks ci ! i in
      if c_dim c \<noteq> dim' then Inr (heap, sz)
      else
        let sc_val = f32_dot_product_neon fp q (emb_of fp ci c) (unat dim') in
        if sz < K then
          let heap1 = heap[unat sz := \<lparr>score = sc_val, idx = word_of_nat i\<rparr>];
              sz1 = sz + 1
          in if sz1 = K
             then (case build_loop fp heap1 (sint K) (sint ((K - 2) div 2)) of
                     Inl e \<Rightarrow> Inl e
                   | Inr heap2 \<Rightarrow> Inr (heap2, sz1))
             else Inr (heap1, sz1)
        else if K = 0 then Inl HeapOutOfBounds
        else if d_less fp (score (heap ! 0)) sc_val
        then (case sift_down fp (heap[0 := \<lparr>score = sc_val, idx = word_of_nat i\<rparr>]) (sint K) of
                Inl e \<Rightarrow> Inl e
              | Inr heap2 \<Rightarrow> Inr (heap2, sz))
        else Inr (heap, sz))"

function scan ::
  "('f, 'd) fpu \<Rightarrow> ChunkIndex \<Rightarrow> 'f list \<Rightarrow> 32 word \<Rightarrow> 32 word \<Rightarrow> nat \<Rightarrow>
   'd Pair_t list \<times> 32 word \<Rightarrow> fault + 'd Pair_t list \<times> 32 word" where
  "scan fp ci q dim' K i st =
     (if i < unat (N ci)
      then (case visit fp ci q dim' K i st of
              Inl e \<Rightarrow> Inl e
            | Inr st' \<Rightarrow> scan fp ci q dim' K (i + 1) st')
      else Inr st)"
  by pat_completeness auto
termination
  by (relation "measure (\<lambda>(fp, ci, q, dim', K, i, st). unat (N ci) - i)") auto

text \<open>
  The heap array and the count at the start of round \<open>i\<close> of the scan loop of
  \<^verbatim>\<open>ci_search\<close>, that is after the rounds 0 to \<open>i - 1\<close>, starting from the array that
  \<^verbatim>\<open>calloc\<close> returns and \<^verbatim>\<open>sz = 0\<close>.
\<close>

fun scan_prefix ::
  "('f, 'd) fpu \<Rightarrow> ChunkIndex \<Rightarrow> 'f list \<Rightarrow> 32 word \<Rightarrow> 32 word \<Rightarrow> nat \<Rightarrow>
   fault + 'd Pair_t list \<times> 32 word" where
  "scan_prefix fp ci q dim' K 0 = Inr (replicate (unat K) \<lparr>score = d_zero fp, idx = 0\<rparr>, 0)"
| "scan_prefix fp ci q dim' K (Suc i) =
     (case scan_prefix fp ci q dim' K i of
        Inl e \<Rightarrow> Inl e
      | Inr st \<Rightarrow> visit fp ci q dim' K i st)"

record 'd hits =
  count :: "32 word"
  out_i :: "32 word list"
  out_s :: "'d list"

text \<open>
  \<^verbatim>\<open>ci_search\<close>: the returned count together with the entries the final loop writes to
  \<^verbatim>\<open>out_i\<close> and \<^verbatim>\<open>out_s\<close>.  The allocation of the heap array is taken to succeed.
\<close>

definition ci_search ::
  "('f, 'd) fpu \<Rightarrow> ChunkIndex \<Rightarrow> 'f list \<Rightarrow> 32 word \<Rightarrow> 32 word \<Rightarrow> fault + 'd hits" where
  "ci_search fp ci q dim' K =
     (case scan fp ci q dim' K 0 (replicate (unat K) \<lparr>score = d_zero fp, idx = 0\<rparr>, 0) of
        Inl e \<Rightarrow> Inl e
      | Inr (heap, sz) \<Rightarrow>
          Inr \<lparr>count = sz,
               out_i = map idx (take (unat sz) heap),
               out_s = map score (take (unat sz) heap)\<rparr>)"



declare sift_down_from.simps [simp del] build_loop.simps [simp del] scan.simps [simp del]

section \<open>The loader\<close>

definition u32_bytes :: "32 word \<Rightarrow> byte list" where
  "u32_bytes w = [ucast w, ucast (drop_bit 8 w), ucast (drop_bit 16 w), ucast (drop_bit 24 w)]"

text \<open>The stores of \<^verbatim>\<open>norm_neon\<close> into the arena: \<^verbatim>\<open>v[0 .. length v - 1]\<close> at offset \<open>p\<close>.\<close>

definition write_floats :: "('f, 'd) fpu \<Rightarrow> byte list \<Rightarrow> nat \<Rightarrow> 'f list \<Rightarrow> byte list" where
  "write_floats fp buf p v =
     take p buf @ concat (map (\<lambda>x. u32_bytes (f_store fp x)) v) @ drop (p + 4 * length v) buf"

text \<open>
  \<^verbatim>\<open>read_str(A, p)\<close>: reads the length at \<^verbatim>\<open>*p\<close> and returns the pointer behind it and
  the advanced \<^verbatim>\<open>*p\<close>.  The C function compares nothing with the arena's size; the
  model marks the read of four bytes that are not all inside the arena.
\<close>

definition read_str :: "byte list \<Rightarrow> nat \<Rightarrow> fault + nat \<times> nat" where
  "read_str A p =
     (if length A < p + 4 then Inl ArenaOutOfBounds
      else Inr (p + 4, p + 4 + unat (u32_at A p)))"

definition read_u32 :: "byte list \<Rightarrow> nat \<Rightarrow> fault + 32 word \<times> nat" where
  "read_u32 A p =
     (if length A < p + 4 then Inl ArenaOutOfBounds
      else Inr (u32_at A p, p + 4))"

text \<open>
  The body of the record loop of \<^verbatim>\<open>ci_load\<close>.  \<^verbatim>\<open>norm_neon(c->emb, c->dim)\<close> reads and
  writes \<open>4 * dim\<close> bytes from \<^verbatim>\<open>p\<close> on.  With \<open>dim \<ge> 2^32 - 4\<close> the test
  \<^verbatim>\<open>i + 4 <= d\<close> of its loops wraps to \<^verbatim>\<open>0 <= d\<close> at \<open>i = 2^32 - 4\<close>, and the loop goes on
  behind the array.
\<close>

definition load_chunk ::
  "('f, 'd) fpu \<Rightarrow> byte list \<Rightarrow> nat \<Rightarrow> fault + Chunk \<times> byte list \<times> nat" where
  "load_chunk fp A p =
     (case read_str A p of Inl e \<Rightarrow> Inl e | Inr (id_p, p1) \<Rightarrow>
      case read_str A p1 of Inl e \<Rightarrow> Inl e | Inr (parent_p, p2) \<Rightarrow>
      case read_str A p2 of Inl e \<Rightarrow> Inl e | Inr (file_p, p3) \<Rightarrow>
      case read_str A p3 of Inl e \<Rightarrow> Inl e | Inr (ext_p, p4) \<Rightarrow>
      case read_u32 A p4 of Inl e \<Rightarrow> Inl e | Inr (start_ln, p5) \<Rightarrow>
      case read_u32 A p5 of Inl e \<Rightarrow> Inl e | Inr (end_ln, p6) \<Rightarrow>
      case read_str A p6 of Inl e \<Rightarrow> Inl e | Inr (text_p, p7) \<Rightarrow>
      case read_u32 A p7 of Inl e \<Rightarrow> Inl e | Inr (dm, p8) \<Rightarrow>
      if length A < p8 + 4 * unat dm then Inl ArenaOutOfBounds
      else if 4294967291 < dm then Inl CounterWraps
      else
        Inr (\<lparr>c_id = id_p, c_parent = parent_p, c_file = file_p, c_ext = ext_p,
              c_text = text_p, c_start_ln = start_ln, c_end_ln = end_ln, c_dim = dm,
              c_emb = p8\<rparr>,
             write_floats fp A p8 (norm_neon fp (floats_at fp A p8 (unat dm)) (unat dm)),
             p8 + 4 * unat dm))"

function load_loop ::
  "('f, 'd) fpu \<Rightarrow> 32 word \<Rightarrow> nat \<Rightarrow> Chunk list \<times> byte list \<times> nat \<Rightarrow>
   fault + Chunk list \<times> byte list \<times> nat" where
  "load_loop fp n i st =
     (case st of (cs, A, p) \<Rightarrow>
      if i < unat n
      then (case load_chunk fp A p of
              Inl e \<Rightarrow> Inl e
            | Inr (c, A', p') \<Rightarrow> load_loop fp n (i + 1) (cs[i := c], A', p'))
      else Inr st)"
  by pat_completeness auto
termination
  by (relation "measure (\<lambda>(fp, n, i, st). unat n - i)") auto

text \<open>An entry of \<^verbatim>\<open>calloc(N, sizeof(Chunk))\<close>; the loop overwrites every entry.\<close>

definition zero_chunk :: Chunk where
  "zero_chunk =
     \<lparr>c_id = 0, c_parent = 0, c_file = 0, c_ext = 0, c_text = 0, c_start_ln = 0,
      c_end_ln = 0, c_dim = 0, c_emb = 0\<rparr>"

text \<open>
  \<^verbatim>\<open>ci_load\<close>, on what \<^verbatim>\<open>fopen\<close> and \<^verbatim>\<open>fread\<close> deliver: \<open>None\<close> when the file cannot be
  opened, else its bytes.  The result \<open>Inr None\<close> is the return of \<^verbatim>\<open>NULL\<close>.  The
  allocations are taken to succeed.
\<close>

definition ci_load :: "('f, 'd) fpu \<Rightarrow> byte list option \<Rightarrow> fault + ChunkIndex option" where
  "ci_load fp f =
     (case f of
        None \<Rightarrow> Inr None
      | Some buf \<Rightarrow>
          (case read_u32 buf 0 of
             Inl e \<Rightarrow> Inl e
           | Inr (n, p) \<Rightarrow>
               (case load_loop fp n 0 (replicate (unat n) zero_chunk, buf, p) of
                  Inl e \<Rightarrow> Inl e
                | Inr (cs, A, p') \<Rightarrow> Inr (Some \<lparr>arena = A, N = n, chunks = cs\<rparr>))))"

subsection \<open>The accessors\<close>

definition ci_get_id :: "ChunkIndex \<Rightarrow> 32 word \<Rightarrow> nat" where
  "ci_get_id ci i = c_id (chunks ci ! unat i)"

definition ci_get_parent :: "ChunkIndex \<Rightarrow> 32 word \<Rightarrow> nat" where
  "ci_get_parent ci i = c_parent (chunks ci ! unat i)"

definition ci_get_file :: "ChunkIndex \<Rightarrow> 32 word \<Rightarrow> nat" where
  "ci_get_file ci i = c_file (chunks ci ! unat i)"

definition ci_get_ext :: "ChunkIndex \<Rightarrow> 32 word \<Rightarrow> nat" where
  "ci_get_ext ci i = c_ext (chunks ci ! unat i)"

definition ci_get_start :: "ChunkIndex \<Rightarrow> 32 word \<Rightarrow> 32 word" where
  "ci_get_start ci i = c_start_ln (chunks ci ! unat i)"

definition ci_get_end :: "ChunkIndex \<Rightarrow> 32 word \<Rightarrow> 32 word" where
  "ci_get_end ci i = c_end_ln (chunks ci ! unat i)"

definition ci_get_text :: "ChunkIndex \<Rightarrow> 32 word \<Rightarrow> nat" where
  "ci_get_text ci i = c_text (chunks ci ! unat i)"

text \<open>
  The five string accessors return a \<^verbatim>\<open>const char *\<close> and no length.  The string a
  caller reads through such a pointer ends before the first zero byte; there is none
  when no zero byte follows in the arena.
\<close>

definition c_string :: "byte list \<Rightarrow> nat \<Rightarrow> byte list option" where
  "c_string A p =
     (if 0 \<in> set (drop p A) then Some (takeWhile (\<lambda>b. b \<noteq> 0) (drop p A)) else None)"

text \<open>The bytes of a given length behind a pointer.\<close>

definition bytes_at :: "byte list \<Rightarrow> nat \<Rightarrow> nat \<Rightarrow> byte list" where
  "bytes_at A p len = take len (drop p A)"

subsection \<open>Corpus files\<close>

text \<open>
  Modelled from the spec: the writer of corpus files is outside the repository; the
  layout is the one of the section on external interfaces,
  \<^verbatim>\<open>File := RecordCount:u32 Record*\<close>,
  \<^verbatim>\<open>Record := LPStr(id) LPStr(parent) LPStr(file) LPStr(ext) start_line:u32 end_line:u32 LPStr(text) dim:u32 Float32[dim]\<close>,
  \<^verbatim>\<open>LPStr := len:u32 bytes[len]\<close>.
\<close>

record src_chunk =
  s_id :: "byte list"
  s_parent :: "byte list"
  s_file :: "byte list"
  s_ext :: "byte list"
  s_start_ln :: "32 word"
  s_end_ln :: "32 word"
  s_text :: "byte list"
  s_emb :: "32 word list"

definition LPStr :: "byte list \<Rightarrow> byte list" where
  "LPStr s = u32_bytes (word_of_nat (length s)) @ s"

definition encode_floats :: "32 word list \<Rightarrow> byte list" where
  "encode_floats ws = concat (map u32_bytes ws)"

definition encode_chunk :: "src_chunk \<Rightarrow> byte list" where
  "encode_chunk r =
     LPStr (s_id r) @ LPStr (s_parent r) @ LPStr (s_file r) @ LPStr (s_ext r) @
     u32_bytes (s_start_ln r) @ u32_bytes (s_end_ln r) @ LPStr (s_text r) @
     u32_bytes (word_of_nat (length (s_emb r))) @ encode_floats (s_emb r)"

definition encode_file :: "src_chunk list \<Rightarrow> byte list" where
  "encode_file rs = u32_bytes (word_of_nat (length rs)) @ concat (map encode_chunk rs)"

declare load_loop.simps [simp del]

section \<open>An IEEE 754 floating-point unit with NEON\<close>

text \<open>
  A concrete floating-point unit, used to run the code on concrete inputs.  A value is
  a rational number, where \<open>Num 0\<close> is the positive zero, the negative zero, an infinity
  or a NaN; the payload of a NaN is not modelled.  Every finite result is rounded to
  nearest, ties to even, at the precision and exponent range of its format (binary32:
  24 bits, exponents -126 to 127; binary64: 53 bits, exponents -1022 to 1023); a zero
  result has the sign that IEEE 754 gives it in this rounding mode.  The reciprocal
  square-root estimate and step follow FRSQRTE and FRSQRTS of the Arm architecture
  manual.
\<close>

datatype ieee = Num rat | NZero | PInf | NInf | NaN

function bitlen :: "int \<Rightarrow> int" where
  "bitlen n = (if n \<le> 0 then 0 else 1 + bitlen (n div 2))"
  by pat_completeness auto
termination
  by (relation "measure nat") auto

definition pow2 :: "int \<Rightarrow> rat" where
  "pow2 e = (if 0 \<le> e then 2 ^ nat e else 1 / 2 ^ nat (- e))"

text \<open>The exponent of a non-zero rational: \<open>2 ^ ilog2 x \<le> \<bar>x\<bar> < 2 ^ (ilog2 x + 1)\<close>.\<close>

definition ilog2 :: "rat \<Rightarrow> int" where
  "ilog2 x = (if 1 \<le> \<bar>x\<bar> then bitlen \<lfloor>\<bar>x\<bar>\<rfloor> - 1 else - bitlen (\<lceil>1 / \<bar>x\<bar>\<rceil> - 1))"

definition round_even :: "rat \<Rightarrow> int" where
  "round_even m =
     (let r = \<lfloor>m\<rfloor>; f = m - of_int r
      in if f < 1 / 2 then r else if 1 / 2 < f then r + 1 else if even r then r else r + 1)"

text \<open>
  The rounding of an exact result \<open>x\<close>.  A negative result that rounds to zero gives the
  negative zero; for \<open>x = 0\<close> the operation decides the sign.
\<close>

definition fp_round :: "nat \<Rightarrow> int \<Rightarrow> int \<Rightarrow> rat \<Rightarrow> ieee" where
  "fp_round p emin emax x =
     (if x = 0 then Num 0
      else
        let e = max (ilog2 x) emin;
            u = pow2 (e - int p + 1);
            y = of_int (round_even (x / u)) * u
        in if pow2 (emax + 1) \<le> \<bar>y\<bar> then (if 0 < x then PInf else NInf)
           else if y = 0 \<and> x < 0 then NZero
           else Num y)"

definition round32 :: "rat \<Rightarrow> ieee" where
  "round32 = fp_round 24 (- 126) 127"

definition round64 :: "rat \<Rightarrow> ieee" where
  "round64 = fp_round 53 (- 1022) 1023"

fun ieee_add :: "(rat \<Rightarrow> ieee) \<Rightarrow> ieee \<Rightarrow> ieee \<Rightarrow> ieee" where
  "ieee_add r NaN b = NaN"
| "ieee_add r a NaN = NaN"
| "ieee_add r PInf NInf = NaN"
| "ieee_add r NInf PInf = NaN"
| "ieee_add r PInf b = PInf"
| "ieee_add r NInf b = NInf"
| "ieee_add r a PInf = PInf"
| "ieee_add r a NInf = NInf"
| "ieee_add r NZero NZero = NZero"
| "ieee_add r NZero (Num y) = r y"
| "ieee_add r (Num x) NZero = r x"
| "ieee_add r (Num x) (Num y) = r (x + y)"

fun ieee_neg :: "ieee \<Rightarrow> ieee" where
  "ieee_neg (Num x) = (if x = 0 then NZero else Num (- x))"
| "ieee_neg NZero = Num 0"
| "ieee_neg PInf = NInf"
| "ieee_neg NInf = PInf"
| "ieee_neg NaN = NaN"

fun ieee_mul :: "(rat \<Rightarrow> ieee) \<Rightarrow> ieee \<Rightarrow> ieee \<Rightarrow> ieee" where
  "ieee_mul r NaN b = NaN"
| "ieee_mul r a NaN = NaN"
| "ieee_mul r (Num x) (Num y) =
     (if x * y = 0 then (if (x < 0) = (y < 0) then Num 0 else NZero) else r (x * y))"
| "ieee_mul r NZero (Num y) = (if y < 0 then Num 0 else NZero)"
| "ieee_mul r (Num x) NZero = (if x < 0 then Num 0 else NZero)"
| "ieee_mul r NZero NZero = Num 0"
| "ieee_mul r NZero b = NaN"
| "ieee_mul r a NZero = NaN"
| "ieee_mul r (Num x) b = (if x = 0 then NaN else if 0 < x then b else ieee_neg b)"
| "ieee_mul r a (Num y) = (if y = 0 then NaN else if 0 < y then a else ieee_neg a)"
| "ieee_mul r PInf b = b"
| "ieee_mul r NInf b = ieee_neg b"

fun ieee_less :: "ieee \<Rightarrow> ieee \<Rightarrow> bool" where
  "ieee_less NaN b = False"
| "ieee_less a NaN = False"
| "ieee_less (Num x) (Num y) = (x < y)"
| "ieee_less NZero (Num y) = (0 < y)"
| "ieee_less (Num x) NZero = (x < 0)"
| "ieee_less NZero NZero = False"
| "ieee_less a NInf = False"
| "ieee_less PInf b = False"
| "ieee_less NInf b = True"
| "ieee_less a PInf = True"

text \<open>The number that a finite value stands for.\<close>

fun fin_val :: "ieee \<Rightarrow> rat option" where
  "fin_val (Num x) = Some x"
| "fin_val NZero = Some 0"
| "fin_val a = None"

text \<open>\<^verbatim>\<open>RecipSqrtEstimate\<close>: the loop searches the largest \<open>b\<close> with \<open>a * b\<^sup>2 < 2\<^sup>2\<^sup>8\<close>.\<close>

function rsqrt_search :: "int \<Rightarrow> int \<Rightarrow> int" where
  "rsqrt_search a b =
     (if 0 < a \<and> 0 \<le> b \<and> a * (b + 1) * (b + 1) < 268435456 then rsqrt_search a (b + 1) else b)"
  by pat_completeness auto
termination
proof (relation "measure (\<lambda>(a, b). nat (268435456 - b))")
  show "wf (measure (\<lambda>(a, b). nat (268435456 - b)))" by simp
next
  fix a b :: int
  assume h: "0 < a \<and> 0 \<le> b \<and> a * (b + 1) * (b + 1) < 268435456"
  then have a: "0 < a" and b: "0 \<le> b" and lt: "a * (b + 1) * (b + 1) < 268435456"
    by simp_all
  have "1 * (b + 1) \<le> a * (b + 1)" using a b by (intro mult_right_mono) auto
  then have "(b + 1) * 1 \<le> (a * (b + 1)) * (b + 1)"
    using a b by (intro mult_mono) auto
  then have "b < 268435456" using lt by simp
  then show "((a, b + 1), (a, b)) \<in> measure (\<lambda>(a, b). nat (268435456 - b))" by simp
qed

definition RecipSqrtEstimate :: "int \<Rightarrow> int" where
  "RecipSqrtEstimate a =
     (let a1 = (if a < 256 then a * 2 + 1 else ((a div 2) * 2 + 1) * 2)
      in (rsqrt_search a1 512 + 1) div 2)"

fun ieee_rsqrte :: "ieee \<Rightarrow> ieee" where
  "ieee_rsqrte NaN = NaN"
| "ieee_rsqrte NInf = NaN"
| "ieee_rsqrte PInf = Num 0"
| "ieee_rsqrte NZero = NInf"
| "ieee_rsqrte (Num v) =
     (if v = 0 then PInf
      else if v < 0 then NaN
      else
        let e = ilog2 v;
            frac = v / pow2 e - 1;
            scaled = (if even (e + 127) then 256 + \<lfloor>frac * 256\<rfloor> else 128 + \<lfloor>frac * 128\<rfloor>);
            result_exp = (380 - (e + 127)) div 2
        in Num (of_int (RecipSqrtEstimate scaled) / 256 * pow2 (result_exp - 127)))"

fun is_inf :: "ieee \<Rightarrow> bool" where
  "is_inf PInf = True"
| "is_inf NInf = True"
| "is_inf a = False"

fun ieee_rsqrts :: "ieee \<Rightarrow> ieee \<Rightarrow> ieee" where
  "ieee_rsqrts NaN b = NaN"
| "ieee_rsqrts a NaN = NaN"
| "ieee_rsqrts NZero b = Num (3 / 2)"
| "ieee_rsqrts a NZero = Num (3 / 2)"
| "ieee_rsqrts (Num x) (Num y) = round32 ((3 - x * y) / 2)"
| "ieee_rsqrts (Num x) b = (if x = 0 then Num (3 / 2) else if 0 < x then ieee_neg b else b)"
| "ieee_rsqrts a (Num y) = (if y = 0 then Num (3 / 2) else if 0 < y then ieee_neg a else a)"
| "ieee_rsqrts PInf b = ieee_neg b"
| "ieee_rsqrts NInf b = b"

text \<open>The binary32 encoding: sign, eight exponent bits, twenty-three fraction bits.\<close>

definition decode32 :: "32 word \<Rightarrow> ieee" where
  "decode32 w =
     (let e = uint (drop_bit 23 w AND 255);
          m = uint (w AND 8388607);
          neg = bit w 31
      in if e = 255 then (if m = 0 then (if neg then NInf else PInf) else NaN)
         else if e = 0 \<and> m = 0 then (if neg then NZero else Num 0)
         else
           let v = (if e = 0 then of_int m * pow2 (- 149)
                    else of_int (8388608 + m) * pow2 (e - 150))
           in Num (if neg then - v else v))"

definition encode32 :: "ieee \<Rightarrow> 32 word" where
  "encode32 a =
     (case a of
        NaN \<Rightarrow> 2143289344
      | NZero \<Rightarrow> 2147483648
      | PInf \<Rightarrow> 2139095040
      | NInf \<Rightarrow> 4286578688
      | Num v \<Rightarrow>
          if v = 0 then 0
          else
            let s = (if v < 0 then 2147483648 else 0);
                e = ilog2 v
            in if e < - 126 then s OR word_of_int \<lfloor>\<bar>v\<bar> * pow2 149\<rfloor>
               else s OR push_bit 23 (word_of_int (e + 127)) OR
                    word_of_int (\<lfloor>\<bar>v\<bar> * pow2 (23 - e)\<rfloor> - 8388608))"

definition arm_fpu :: "(ieee, ieee) fpu" where
  "arm_fpu =
     \<lparr>f_zero = Num 0,
      f_add = ieee_add round32,
      f_mul = ieee_mul round32,
      f_mla = (\<lambda>a b c. ieee_add round32 a (ieee_mul round32 b c)),
      f_rsqrte = ieee_rsqrte,
      f_rsqrts = ieee_rsqrts,
      f_load = decode32,
      f_store = encode32,
      widen = (\<lambda>a. a),
      d_zero = Num 0,
      d_add = ieee_add round64,
      d_mul = ieee_mul round64,
      d_less = ieee_less\<rparr>"

declare bitlen.simps [simp del] rsqrt_search.simps [simp del]

section \<open>Concrete corpora\<close>

text \<open>A record without strings whose embedding has \<open>d\<close> floats at offset \<open>p\<close> of the arena.\<close>

definition plain_chunk :: "nat \<Rightarrow> 32 word \<Rightarrow> Chunk" where
  "plain_chunk p d =
     \<lparr>c_id = 0, c_parent = 0, c_file = 0, c_ext = 0, c_text = 0, c_start_ln = 0,
      c_end_ln = 0, c_dim = d, c_emb = p\<rparr>"

text \<open>
  Five records of dimension 1 with the embeddings 4.0, 16.0, 8.0, 1.0 and 2.0 (binary32,
  little-endian); the query \<open>[1.0]\<close> scores them 4, 16, 8, 1 and 2.
\<close>

definition heap_corpus :: ChunkIndex where
  "heap_corpus =
     \<lparr>arena = [0, 0, 128, 64,  0, 0, 128, 65,  0, 0, 0, 65,  0, 0, 128, 63,  0, 0, 0, 64],
      N = 5,
      chunks = [plain_chunk 0 1, plain_chunk 4 1, plain_chunk 8 1, plain_chunk 12 1,
                plain_chunk 16 1]\<rparr>"

text \<open>Three records of dimension 1 with the embeddings 4.0, 16.0 and 4.0.\<close>

definition tie_corpus :: ChunkIndex where
  "tie_corpus =
     \<lparr>arena = [0, 0, 128, 64,  0, 0, 128, 65,  0, 0, 128, 64],
      N = 3,
      chunks = [plain_chunk 0 1, plain_chunk 4 1, plain_chunk 8 1]\<rparr>"

text \<open>
  Six records of dimension 1 with the embeddings 5.0, 1.0, 2.0, 5.0, 6.0 and 7.0: the
  records 0 and 3 have the same score for every query.
\<close>

definition late_tie_corpus :: ChunkIndex where
  "late_tie_corpus =
     \<lparr>arena = [0, 0, 160, 64,  0, 0, 128, 63,  0, 0, 0, 64,  0, 0, 160, 64,  0, 0, 192, 64,
               0, 0, 224, 64],
      N = 6,
      chunks = [plain_chunk 0 1, plain_chunk 4 1, plain_chunk 8 1, plain_chunk 12 1,
                plain_chunk 16 1, plain_chunk 20 1]\<rparr>"

text \<open>
  The scenario of the specification: embeddings \<open>[1, 0, 0, 0]\<close> and \<open>[0, 1, 0, 0]\<close> of
  dimension 4 and a third record of dimension 2 with the embedding \<open>[16, 16]\<close>.
\<close>

definition mixed_corpus :: ChunkIndex where
  "mixed_corpus =
     \<lparr>arena = [0, 0, 128, 63,  0, 0, 0, 0,  0, 0, 0, 0,  0, 0, 0, 0,
               0, 0, 0, 0,  0, 0, 128, 63,  0, 0, 0, 0,  0, 0, 0, 0,
               0, 0, 128, 65,  0, 0, 128, 65],
      N = 3,
      chunks = [plain_chunk 0 4, plain_chunk 16 4, plain_chunk 32 2]\<rparr>"

text \<open>The same corpus with another third record, of dimension 1.\<close>

definition mixed_corpus_alt :: ChunkIndex where
  "mixed_corpus_alt =
     \<lparr>arena = arena mixed_corpus, N = 3,
      chunks = [plain_chunk 0 4, plain_chunk 16 4, plain_chunk 36 1]\<rparr>"

section \<open>Notions used in the statements\<close>

text \<open>Record \<open>i\<close> is eligible for a query of dimension \<open>dim'\<close>.\<close>

definition eligible :: "ChunkIndex \<Rightarrow> 32 word \<Rightarrow> nat \<Rightarrow> bool" where
  "eligible ci dim' i = (c_dim (chunks ci ! i) = dim')"

text \<open>The number of eligible records among the records from \<open>i\<close> to \<open>n - 1\<close>.\<close>

definition n_eligible :: "ChunkIndex \<Rightarrow> 32 word \<Rightarrow> nat \<Rightarrow> nat \<Rightarrow> nat" where
  "n_eligible ci dim' i n = length (filter (eligible ci dim') [i..<n])"

text \<open>The candidate \<^verbatim>\<open>(Pair){ sc_val, i }\<close> that the scan builds for an eligible record.\<close>

definition cand :: "('f, 'd) fpu \<Rightarrow> ChunkIndex \<Rightarrow> 'f list \<Rightarrow> 32 word \<Rightarrow> nat \<Rightarrow> 'd Pair_t" where
  "cand fp ci q dim' i =
     \<lparr>score = f32_dot_product_neon fp q (emb_of fp ci (chunks ci ! i)) (unat dim'),
      idx = word_of_nat i\<rparr>"

text \<open>
  The top-K property in the words of the specification: every returned score is at least
  the score of every eligible record that is not returned.
\<close>

definition topk_correct ::
  "('f, 'd) fpu \<Rightarrow> ChunkIndex \<Rightarrow> 'f list \<Rightarrow> 32 word \<Rightarrow> 'd hits \<Rightarrow> bool" where
  "topk_correct fp ci q dim' r =
     list_all
       (\<lambda>j. if eligible ci dim' j \<and> word_of_nat j \<notin> set (out_i r)
            then list_all (\<lambda>s. \<not> d_less fp s (score (cand fp ci q dim' j))) (out_s r)
            else True)
       [0..<unat (N ci)]"

text \<open>The 32-bit words of an array of \<open>d\<close> floats at offset \<open>p\<close>.\<close>

definition words_at :: "byte list \<Rightarrow> nat \<Rightarrow> nat \<Rightarrow> 32 word list" where
  "words_at A p d = map (\<lambda>k. u32_at A (p + 4 * k)) [0..<d]"

text \<open>
  A record fits the format: every length fits its 32-bit prefix, and the dimension is
  at most \<open>2^32 - 5\<close>, the range in which the counters of \<^verbatim>\<open>norm_neon\<close> do not wrap.
\<close>

definition wf_chunk :: "src_chunk \<Rightarrow> bool" where
  "wf_chunk r =
     (length (s_id r) < 4294967296 \<and> length (s_parent r) < 4294967296 \<and>
      length (s_file r) < 4294967296 \<and> length (s_ext r) < 4294967296 \<and>
      length (s_text r) < 4294967296 \<and> length (s_emb r) \<le> 4294967291)"

definition wf_file :: "src_chunk list \<Rightarrow> bool" where
  "wf_file rs = (length rs < 4294967296 \<and> list_all wf_chunk rs)"

text \<open>The embedding of a record after \<^verbatim>\<open>norm_neon\<close>, as the words stored in the arena.\<close>

definition normalized :: "('f, 'd) fpu \<Rightarrow> src_chunk \<Rightarrow> 32 word list" where
  "normalized fp r =
     map (f_store fp) (norm_neon fp (map (f_load fp) (s_emb r)) (length (s_emb r)))"

text \<open>
  What the accessors give for record \<open>i\<close> of a loaded corpus agrees with the record \<open>r\<close>
  that was written: behind each string pointer lie the bytes of the string, in its
  length; the line numbers and the dimension are the written ones; the embedding is
  the written one after \<^verbatim>\<open>norm_neon\<close>.
\<close>

definition reads_back :: "('f, 'd) fpu \<Rightarrow> ChunkIndex \<Rightarrow> 32 word \<Rightarrow> src_chunk \<Rightarrow> bool" where
  "reads_back fp ci i r =
     (bytes_at (arena ci) (ci_get_id ci i) (length (s_id r)) = s_id r \<and>
      bytes_at (arena ci) (ci_get_parent ci i) (length (s_parent r)) = s_parent r \<and>
      bytes_at (arena ci) (ci_get_file ci i) (length (s_file r)) = s_file r \<and>
      bytes_at (arena ci) (ci_get_ext ci i) (length (s_ext r)) = s_ext r \<and>
      bytes_at (arena ci) (ci_get_text ci i) (length (s_text r)) = s_text r \<and>
      ci_get_start ci i = s_start_ln r \<and>
      ci_get_end ci i = s_end_ln r \<and>
      unat (c_dim (chunks ci ! unat i)) = length (s_emb r) \<and>
      words_at (arena ci) (c_emb (chunks ci ! unat i)) (length (s_emb r)) = normalized fp r)"

text \<open>Two finite values differ by at most \<open>eps\<close>.\<close>

definition close_to :: "rat \<Rightarrow> ieee \<Rightarrow> ieee \<Rightarrow> bool" where
  "close_to eps a b =
     (case (fin_val a, fin_val b) of (Some x, Some y) \<Rightarrow> \<bar>y - x\<bar> \<le> eps | _ \<Rightarrow> False)"

text \<open>
  An embedding, given by its binary32 words, is already of unit length: every component
  is finite and of magnitude at most 1, and the sum of squares, as \<^verbatim>\<open>norm_neon\<close> adds it
  up in single precision, lies within \<open>2^-11\<close> of 1.
\<close>

definition unit_embedding :: "32 word list \<Rightarrow> bool" where
  "unit_embedding ws =
     (list_all (\<lambda>w. case fin_val (decode32 w) of Some x \<Rightarrow> \<bar>x\<bar> \<le> 1 | None \<Rightarrow> False) ws \<and>
      (case fin_val (norm_neon_sum arm_fpu (map decode32 ws) (length ws)) of
         Some s \<Rightarrow> \<bar>s - 1\<bar> \<le> 1 / 2048
       | None \<Rightarrow> False))"

text \<open>
  The embedding of record \<open>i\<close> of a loaded corpus, read as \<^verbatim>\<open>ci_search\<close> reads it through
  \<^verbatim>\<open>c->emb\<close>, differs from the embedding written in the record \<open>r\<close> by at most \<open>eps\<close>,
  component by component.
\<close>

definition embedding_kept :: "rat \<Rightarrow> ChunkIndex \<Rightarrow> 32 word \<Rightarrow> src_chunk \<Rightarrow> bool" where
  "embedding_kept eps ci i r =
     list_all2 (close_to eps) (map decode32 (s_emb r)) (emb_of arm_fpu ci (chunks ci ! unat i))"

text \<open>The descriptor the loader builds for a record written at offset \<open>p\<close>.\<close>

definition chunk_at :: "nat \<Rightarrow> src_chunk \<Rightarrow> Chunk" where
  "chunk_at p r =
     \<lparr>c_id = p + 4,
      c_parent = p + 4 + length (s_id r) + 4,
      c_file = p + 4 + length (s_id r) + 4 + length (s_parent r) + 4,
      c_ext = p + 4 + length (s_id r) + 4 + length (s_parent r) + 4 + length (s_file r) + 4,
      c_text = p + 4 + length (s_id r) + 4 + length (s_parent r) + 4 + length (s_file r) + 4 +
               length (s_ext r) + 4 + 4 + 4,
      c_start_ln = s_start_ln r,
      c_end_ln = s_end_ln r,
      c_dim = word_of_nat (length (s_emb r)),
      c_emb = p + 4 + length (s_id r) + 4 + length (s_parent r) + 4 + length (s_file r) + 4 +
              length (s_ext r) + 4 + 4 + 4 + length (s_text r) + 4\<rparr>"

fun chunks_from :: "nat \<Rightarrow> src_chunk list \<Rightarrow> Chunk list" where
  "chunks_from p [] = []"
| "chunks_from p (r # rs) = chunk_at p r # chunks_from (p + length (encode_chunk r)) rs"

text \<open>The record with its embedding replaced by the normalised one.\<close>

definition norm_rec :: "('f, 'd) fpu \<Rightarrow> src_chunk \<Rightarrow> src_chunk" where
  "norm_rec fp r = r\<lparr>s_emb := normalized fp r\<rparr>"

text \<open>
  A record with the id \<open>a\<close>, the parent \<open>bc\<close>, the file \<open>d\<close>, the extension \<open>e\<close>, the
  lines 3 to 9, the text \<open>fg\<close> and the embedding \<open>[1.0]\<close>; the file that holds it; and
  the corpus that loading this file gives.
\<close>

definition sample_record :: src_chunk where
  "sample_record =
     \<lparr>s_id = [97], s_parent = [98, 99], s_file = [100], s_ext = [101], s_start_ln = 3,
      s_end_ln = 9, s_text = [102, 103], s_emb = [1065353216]\<rparr>"

definition sample_file :: "byte list" where
  "sample_file =
     [1, 0, 0, 0,  1, 0, 0, 0, 97,  2, 0, 0, 0, 98, 99,  1, 0, 0, 0, 100,  1, 0, 0, 0, 101,
      3, 0, 0, 0,  9, 0, 0, 0,  2, 0, 0, 0, 102, 103,  1, 0, 0, 0,  0, 0, 128, 63]"

definition sample_index :: ChunkIndex where
  "sample_index =
     \<lparr>arena =
        [1, 0, 0, 0,  1, 0, 0, 0, 97,  2, 0, 0, 0, 98, 99,  1, 0, 0, 0, 100,  1, 0, 0, 0, 101,
         3, 0, 0, 0,  9, 0, 0, 0,  2, 0, 0, 0, 102, 103,  1, 0, 0, 0,  49, 224, 127, 63],
      N = 1,
      chunks = [\<lparr>c_id = 8, c_parent = 13, c_file = 19, c_ext = 24, c_text = 37,
                 c_start_ln = 3, c_end_ln = 9, c_dim = 1, c_emb = 43\<rparr>]\<rparr>"

text \<open>A file that announces one record and an id of five bytes, and ends after two.\<close>

definition short_file :: "byte list" where
  "short_file = [1, 0, 0, 0,  5, 0, 0, 0, 97, 98]"

section \<open>The heap operations\<close>

lemma sift_down_from_mset:
  "sift_down_from fp h K i = Inr h' \<Longrightarrow> K \<le> int (length h) \<Longrightarrow> mset h' = mset h"
proof (induction fp h K i arbitrary: h' rule: sift_down_from.induct)
  case (1 fp h K i)
  let ?l = "2 * i + 1"
  let ?c = "if int ?l + 1 < K \<and> d_less fp (score (h ! (?l + 1))) (score (h ! ?l)) then ?l + 1 else ?l"
  show ?case
  proof (cases "2147483647 < 2 * int i + 1 \<or> K \<le> int ?l \<or> \<not> d_less fp (score (h ! ?c)) (score (h ! i))")
    case True
    with "1.prems" show ?thesis
      by (subst (asm) sift_down_from.simps) (auto simp: Let_def split: if_splits)
  next
    case False
    then have ov: "\<not> 2147483647 < 2 * int i + 1" and lt: "\<not> K \<le> int ?l"
      and sw: "d_less fp (score (h ! ?c)) (score (h ! i))" by auto
    have cK: "int ?c < K" using lt by auto
    have ic: "i < ?c" by auto
    have cl: "?c < length h" using cK "1.prems"(2) by linarith
    have il: "i < length h" using ic cl by linarith
    have rec: "sift_down_from fp (h[i := h ! ?c, ?c := h ! i]) K ?c = Inr h'"
      using "1.prems"(1) ov lt sw
      by (subst (asm) sift_down_from.simps) (simp add: Let_def)
    have "mset h' = mset (h[i := h ! ?c, ?c := h ! i])"
      using "1.IH"[OF ov lt refl sw rec] "1.prems"(2) by simp
    also have "\<dots> = mset h" using cl il by (rule mset_swap)
    finally show ?thesis .
  qed
qed


lemma sift_down_mset:
  "sift_down fp h K = Inr h' \<Longrightarrow> K \<le> int (length h) \<Longrightarrow> mset h' = mset h"
  unfolding sift_down_def by (rule sift_down_from_mset)


lemma build_loop_mset:
  "build_loop fp h K p = Inr h' \<Longrightarrow> K \<le> int (length h) \<Longrightarrow> mset h' = mset h"
proof (induction fp h K p arbitrary: h' rule: build_loop.induct)
  case (1 fp h K p)
  show ?case
  proof (cases "0 \<le> p")
    case False
    with "1.prems"(1) show ?thesis by (subst (asm) build_loop.simps) simp
  next
    case True
    from "1.prems"(1) True obtain h1 where s: "sift_down fp h K = Inr h1"
      and b: "build_loop fp h1 K (p - 1) = Inr h'"
      by (subst (asm) build_loop.simps) (auto split: sum.splits)
    have m1: "mset h1 = mset h" using s "1.prems"(2) by (rule sift_down_mset)
    then have "length h1 = length h" by (metis size_mset)
    then have "mset h' = mset h1" using "1.IH"[OF True s b] "1.prems"(2) by simp
    with m1 show ?thesis by simp
  qed
qed


lemma sint_le_unat: "sint (K :: 32 word) \<le> int (unat K)"
proof -
  have "sint K = take_bit 32 (uint K) - 2 ^ 32 * of_bool (bit (uint K) 31)"
    by (simp add: sint_uint signed_take_bit_eq_take_bit_minus)
  also have "\<dots> \<le> take_bit 32 (uint K)" by simp
  also have "\<dots> = uint K" by (simp add: take_bit_int_eq_self_iff uint_lt2p [of K, simplified])
  finally show ?thesis by simp
qed

lemma word_succ_facts:
  fixes sz K :: "32 word"
  assumes "sz < K"
  shows "unat (sz + 1) = Suc (unat sz)" and "sz + 1 \<le> K" and "unat sz < unat K"
  using assms by unat_arith+

section \<open>One round of the scan\<close>

lemma visit_skip:
  "\<not> eligible ci dim' i \<Longrightarrow> visit fp ci q dim' K i st = Inr st"
  by (cases st) (simp add: visit_def eligible_def Let_def)

lemma visit_K0:
  "eligible ci dim' i \<Longrightarrow> visit fp ci q dim' 0 i st = Inl HeapOutOfBounds"
  by (cases st) (simp add: visit_def eligible_def Let_def)

lemma visit_fill:
  assumes el: "eligible ci dim' i" and lt: "sz < K" and len: "length heap = unat K"
    and v: "visit fp ci q dim' K i (heap, sz) = Inr (heap', sz')"
  shows "sz' = sz + 1 \<and> length heap' = unat K \<and>
         mset (take (unat sz') heap') = add_mset (cand fp ci q dim' i) (mset (take (unat sz) heap))"
proof -
  let ?new = "cand fp ci q dim' i"
  let ?h1 = "heap[unat sz := ?new]"
  have us: "unat (sz + 1) = Suc (unat sz)" and uk: "unat sz < unat K"
    using word_succ_facts[OF lt] by simp_all
  have t1: "take (Suc (unat sz)) ?h1 = take (unat sz) heap @ [?new]"
    using uk len by (simp add: take_Suc_conv_app_nth)
  show ?thesis
  proof (cases "sz + 1 = K")
    case False
    with v el lt have "heap' = ?h1" "sz' = sz + 1"
      by (auto simp: visit_def eligible_def cand_def Let_def)
    then show ?thesis using t1 us len by simp
  next
    case True
    with v el lt have b: "build_loop fp ?h1 (sint K) (sint ((K - 2) div 2)) = Inr heap'"
      and s: "sz' = sz + 1"
      by (auto simp: visit_def eligible_def cand_def Let_def split: sum.splits)
    have "sint K \<le> int (length ?h1)" using sint_le_unat[of K] len by simp
    then have m: "mset heap' = mset ?h1" using b build_loop_mset by blast
    then have l: "length heap' = unat K" using len by (metis size_mset length_list_update)
    have full: "Suc (unat sz) = unat K" using True us by metis
    have tk: "take (unat sz') heap' = heap'" using s us l full by simp
    have "take (Suc (unat sz)) ?h1 = ?h1" using len full by simp
    then have h1eq: "?h1 = take (unat sz) heap @ [?new]" using t1 by simp
    have "mset (take (unat sz') heap') = mset ?h1" using tk m by simp
    also have "\<dots> = add_mset ?new (mset (take (unat sz) heap))"
      by (subst h1eq) simp
    finally show ?thesis using s l by simp
  qed
qed

lemma visit_full:
  assumes el: "eligible ci dim' i" and ge: "\<not> sz < K" and len: "length heap = unat K"
    and v: "visit fp ci q dim' K i (heap, sz) = Inr (heap', sz')"
  shows "sz' = sz \<and> K \<noteq> 0 \<and> length heap' = unat K \<and>
         (if d_less fp (score (heap ! 0)) (score (cand fp ci q dim' i))
          then mset heap' = mset (heap[0 := cand fp ci q dim' i])
          else heap' = heap)"
proof -
  let ?new = "cand fp ci q dim' i"
  from v el ge have k0: "K \<noteq> 0"
    by (auto simp: visit_def eligible_def Let_def split: if_splits)
  show ?thesis
  proof (cases "d_less fp (score (heap ! 0)) (score ?new)")
    case False
    with v el ge k0 len show ?thesis
      by (auto simp: visit_def eligible_def cand_def Let_def)
  next
    case True
    with v el ge k0 have s: "sift_down fp (heap[0 := ?new]) (sint K) = Inr heap'" and z: "sz' = sz"
      by (auto simp: visit_def eligible_def cand_def Let_def split: sum.splits)
    have "sint K \<le> int (length (heap[0 := ?new]))" using sint_le_unat[of K] len by simp
    then have m: "mset heap' = mset (heap[0 := ?new])" using s sift_down_mset by blast
    then have "length heap' = unat K" using len by (metis size_mset length_list_update)
    with m z k0 True show ?thesis by simp
  qed
qed


lemma visit_inv:
  assumes v: "visit fp ci q dim' K i (heap, sz) = Inr (heap', sz')"
    and len: "length heap = unat K" and le: "sz \<le> K"
  shows "length heap' = unat K \<and> sz' \<le> K \<and>
         set (take (unat sz') heap') \<subseteq> insert (cand fp ci q dim' i) (set (take (unat sz) heap))"
proof (cases "eligible ci dim' i")
  case False
  then show ?thesis using v len le by (auto simp: visit_skip)
next
  case el: True
  show ?thesis
  proof (cases "sz < K")
    case True
    from visit_fill[OF el True len v] word_succ_facts(2)[OF True]
    show ?thesis by (metis set_mset_mset set_mset_add_mset_insert subset_refl)
  next
    case False
    then have eq: "sz = K" using le by simp
    from visit_full[OF el False len v]
    have s: "sz' = sz" and l: "length heap' = unat K"
      and m: "heap' = heap \<or> mset heap' = mset (heap[0 := cand fp ci q dim' i])"
      by (auto split: if_splits)
    have "set heap' \<subseteq> insert (cand fp ci q dim' i) (set heap)"
      using m set_update_subset_insert[of heap 0 "cand fp ci q dim' i"]
      by (metis mset_eq_setD subset_insertI)
    then show ?thesis using s l eq len by simp
  qed
qed

lemma n_eligible_step:
  "i < n \<Longrightarrow> n_eligible ci dim' i n =
     (if eligible ci dim' i then 1 else 0) + n_eligible ci dim' (Suc i) n"
  by (simp add: n_eligible_def upt_conv_Cons)

lemma n_eligible_done: "n \<le> i \<Longrightarrow> n_eligible ci dim' i n = 0"
  by (simp add: n_eligible_def)

lemma scan_K0:
  "scan fp ci q dim' 0 i st =
     (if n_eligible ci dim' i (unat (N ci)) = 0 then Inr st else Inl HeapOutOfBounds)"
proof (induction fp ci q dim' "0 :: 32 word" i st rule: scan.induct)
  case (1 fp ci q dim' i st)
  show ?case
  proof (cases "i < unat (N ci)")
    case False
    then show ?thesis by (subst scan.simps) (simp add: n_eligible_done)
  next
    case lt: True
    show ?thesis
    proof (cases "eligible ci dim' i")
      case True
      then show ?thesis using lt
        by (subst scan.simps) (simp add: visit_K0 n_eligible_step)
    next
      case False
      then have v: "visit fp ci q dim' 0 i st = Inr st" by (rule visit_skip)
      show ?thesis using lt False "1.hyps"[OF lt v]
        by (subst scan.simps) (simp add: v n_eligible_step)
    qed
  qed
qed


section \<open>The scan\<close>

lemma scan_retained:
  "scan fp ci q dim' K i (heap, sz) = Inr (heap', sz') \<Longrightarrow> length heap = unat K \<Longrightarrow> sz \<le> K \<Longrightarrow>
   length heap' = unat K \<and> sz' \<le> K \<and>
   unat sz' \<le> unat sz + n_eligible ci dim' i (unat (N ci)) \<and>
   set (take (unat sz') heap') \<subseteq>
     set (take (unat sz) heap) \<union>
     cand fp ci q dim' ` {j. i \<le> j \<and> j < unat (N ci) \<and> eligible ci dim' j}"
proof (induction fp ci q dim' K i "(heap, sz)" arbitrary: heap sz rule: scan.induct)
  case (1 fp ci q dim' K i)
  note s = "1.prems"(1) and inv = "1.prems"(2,3)
  let ?C = "\<lambda>i. cand fp ci q dim' ` {j. i \<le> j \<and> j < unat (N ci) \<and> eligible ci dim' j}"
  show ?case
  proof (cases "i < unat (N ci)")
    case False
    then show ?thesis using s inv by (subst (asm) scan.simps) simp
  next
    case lt: True
    from s lt obtain heap1 sz1 where v: "visit fp ci q dim' K i (heap, sz) = Inr (heap1, sz1)"
      and r: "scan fp ci q dim' K (i + 1) (heap1, sz1) = Inr (heap', sz')"
      by (subst (asm) scan.simps) (auto split: sum.splits)
    have inv1: "length heap1 = unat K" "sz1 \<le> K"
      and sub1: "set (take (unat sz1) heap1) \<subseteq> insert (cand fp ci q dim' i) (set (take (unat sz) heap))"
      using visit_inv[OF v inv] by simp_all
    from "1.hyps"[OF lt v r inv1]
    have l: "length heap' = unat K" and le: "sz' \<le> K"
      and c: "unat sz' \<le> unat sz1 + n_eligible ci dim' (i + 1) (unat (N ci))"
      and sub: "set (take (unat sz') heap') \<subseteq> set (take (unat sz1) heap1) \<union> ?C (i + 1)"
      by simp_all
    have step: "set (take (unat sz1) heap1) \<subseteq> set (take (unat sz) heap) \<union> ?C i \<and>
                unat sz1 + n_eligible ci dim' (Suc i) (unat (N ci))
                  \<le> unat sz + n_eligible ci dim' i (unat (N ci))"
    proof (cases "eligible ci dim' i")
      case False
      then show ?thesis using v lt by (simp add: visit_skip n_eligible_step)
    next
      case el: True
      then have "cand fp ci q dim' i \<in> ?C i" using lt by blast
      then have a: "set (take (unat sz1) heap1) \<subseteq> set (take (unat sz) heap) \<union> ?C i"
        using sub1 by blast
      have "unat sz1 \<le> Suc (unat sz)"
      proof (cases "sz < K")
        case True
        from visit_fill[OF el True inv(1) v] word_succ_facts(1)[OF True]
        show ?thesis by simp
      next
        case False
        from visit_full[OF el False inv(1) v] show ?thesis by simp
      qed
      then show ?thesis using a el lt by (simp add: n_eligible_step)
    qed
    have "?C (i + 1) \<subseteq> ?C i" by auto
    then show ?thesis using l le c sub step by auto
  qed
qed

lemma visit_cong:
  assumes "arena ci' = arena ci"
    and "chunks ci' ! i = chunks ci ! i \<or> (\<not> eligible ci dim' i \<and> \<not> eligible ci' dim' i)"
  shows "visit fp ci' q dim' K i st = visit fp ci q dim' K i st"
  using assms(2)
proof
  assume "chunks ci' ! i = chunks ci ! i"
  then show ?thesis using assms(1) by (cases st) (simp add: visit_def emb_of_def Let_def)
next
  assume "\<not> eligible ci dim' i \<and> \<not> eligible ci' dim' i"
  then show ?thesis by (simp add: visit_skip)
qed

lemma scan_cong:
  "N ci' = N ci \<Longrightarrow> arena ci' = arena ci \<Longrightarrow>
   (\<forall>j<unat (N ci). chunks ci' ! j = chunks ci ! j \<or>
      (\<not> eligible ci dim' j \<and> \<not> eligible ci' dim' j)) \<Longrightarrow>
   scan fp ci' q dim' K i st = scan fp ci q dim' K i st"
proof (induction fp ci q dim' K i st rule: scan.induct)
  case (1 fp ci q dim' K i st)
  show ?case
  proof (cases "i < unat (N ci)")
    case False
    then show ?thesis using "1.prems"(1)
      by (simp add: scan.simps[of fp ci' q dim' K i st] scan.simps[of fp ci q dim' K i st])
  next
    case True
    have v: "visit fp ci' q dim' K i st = visit fp ci q dim' K i st"
      using "1.prems" True by (intro visit_cong) auto
    show ?thesis
    proof (cases "visit fp ci q dim' K i st")
      case (Inl e)
      then show ?thesis using True v "1.prems"(1)
        by (simp add: scan.simps[of fp ci' q dim' K i st] scan.simps[of fp ci q dim' K i st])
    next
      case (Inr st')
      then show ?thesis using True v "1.prems"(1) "1.IH"[OF True Inr "1.prems"]
        by (simp add: scan.simps[of fp ci' q dim' K i st] scan.simps[of fp ci q dim' K i st])
    qed
  qed
qed

section \<open>The rounds of the scan\<close>

lemma scan_prefix_inv:
  "scan_prefix fp ci q dim' K i = Inr (heap, sz) \<Longrightarrow> length heap = unat K \<and> sz \<le> K"
proof (induction i arbitrary: heap sz)
  case 0
  then show ?case by auto
next
  case (Suc i)
  from Suc.prems obtain heap0 sz0 where p: "scan_prefix fp ci q dim' K i = Inr (heap0, sz0)"
    and v: "visit fp ci q dim' K i (heap0, sz0) = Inr (heap, sz)"
    by (auto split: sum.splits)
  from Suc.IH[OF p] have "length heap0 = unat K" "sz0 \<le> K" by simp_all
  from visit_inv[OF v this] show ?case by simp
qed

lemma scan_from_prefix:
  "i \<le> unat (N ci) \<Longrightarrow>
   scan fp ci q dim' K 0 (replicate (unat K) \<lparr>score = d_zero fp, idx = 0\<rparr>, 0) =
     (case scan_prefix fp ci q dim' K i of
        Inl e \<Rightarrow> Inl e
      | Inr st \<Rightarrow> scan fp ci q dim' K i st)"
proof (induction i)
  case 0
  then show ?case by simp
next
  case (Suc i)
  then have lt: "i < unat (N ci)" by simp
  show ?case
  proof (cases "scan_prefix fp ci q dim' K i")
    case (Inl e)
    then show ?thesis using Suc.IH lt by simp
  next
    case (Inr st)
    then show ?thesis using Suc.IH lt
      by (simp add: scan.simps[of fp ci q dim' K i st] split: sum.splits)
  qed
qed

lemma ci_search_prefix:
  "ci_search fp ci q dim' K =
     (case scan_prefix fp ci q dim' K (unat (N ci)) of
        Inl e \<Rightarrow> Inl e
      | Inr (heap, sz) \<Rightarrow>
          Inr \<lparr>count = sz, out_i = map idx (take (unat sz) heap),
               out_s = map score (take (unat sz) heap)\<rparr>)"
proof -
  have "scan fp ci q dim' K (unat (N ci)) st = Inr st" for st
    by (subst scan.simps) simp
  then show ?thesis
    using scan_from_prefix[of "unat (N ci)" ci fp q dim' K]
    by (simp add: ci_search_def split: sum.splits)
qed

lemma round_of_scan:
  assumes "visit fp ci q dim' K i (heap, sz) = Inr (heap', sz')"
    and "length heap = unat K" and "sz \<le> K"
  shows "(if c_dim (chunks ci ! i) \<noteq> dim' then heap' = heap \<and> sz' = sz
          else if sz < K
          then sz' = sz + 1 \<and>
               mset (take (unat sz') heap') =
                 add_mset (cand fp ci q dim' i) (mset (take (unat sz) heap))
          else if d_less fp (score (heap ! 0)) (score (cand fp ci q dim' i))
          then sz' = sz \<and>
               mset heap' = add_mset (cand fp ci q dim' i) (mset heap - {#heap ! 0#})
          else heap' = heap \<and> sz' = sz) \<and>
         ((\<forall>e\<in>set (take (unat sz) heap). \<not> d_less fp (score e) (score (cand fp ci q dim' i)))
            \<longrightarrow> mset (take (unat sz) heap) \<subseteq># mset (take (unat sz') heap'))"
proof -
  let ?new = "cand fp ci q dim' i"
  let ?keep = "mset (take (unat sz) heap) \<subseteq># mset (take (unat sz') heap')"
  let ?round = "if c_dim (chunks ci ! i) \<noteq> dim' then heap' = heap \<and> sz' = sz
          else if sz < K
          then sz' = sz + 1 \<and>
               mset (take (unat sz') heap') = add_mset ?new (mset (take (unat sz) heap))
          else if d_less fp (score (heap ! 0)) (score ?new)
          then sz' = sz \<and> mset heap' = add_mset ?new (mset heap - {#heap ! 0#})
          else heap' = heap \<and> sz' = sz"
  have main: "?round \<and> (?keep \<or> (d_less fp (score (heap ! 0)) (score ?new) \<and>
                                   heap ! 0 \<in> set (take (unat sz) heap)))"
  proof (cases "eligible ci dim' i")
    case False
    then have "visit fp ci q dim' K i (heap, sz) = Inr (heap, sz)" by (rule visit_skip)
    then show ?thesis using assms(1) False by (simp add: eligible_def)
  next
    case el: True
    then have d: "\<not> c_dim (chunks ci ! i) \<noteq> dim'" by (simp add: eligible_def)
    show ?thesis
    proof (cases "sz < K")
      case True
      have f1: "sz' = sz + 1"
        and f2: "mset (take (unat sz') heap') = add_mset ?new (mset (take (unat sz) heap))"
        using visit_fill[OF el True assms(2) assms(1)] by blast+
      have k: ?keep unfolding f2 by simp
      have ?round using f1 f2 d True by (simp only: if_True if_False simp_thms)
      then show ?thesis using k by blast
    next
      case False
      then have eq: "sz = K" using assms(3) by simp
      from visit_full[OF el False assms(2) assms(1)]
      have s: "sz' = sz" and k0: "K \<noteq> 0"
        and m: "if d_less fp (score (heap ! 0)) (score ?new)
                then mset heap' = mset (heap[0 := ?new]) else heap' = heap"
        by simp_all
      have pos: "0 < length heap" using k0 assms(2) by (simp add: unat_gt_0)
      show ?thesis
      proof (cases "d_less fp (score (heap ! 0)) (score ?new)")
        case False
        then show ?thesis using m s d \<open>\<not> sz < K\<close> by simp
      next
        case True
        then have "mset heap' = add_mset ?new (mset heap - {#heap ! 0#})"
          using m pos by (simp add: mset_update)
        moreover have "heap ! 0 \<in> set (take (unat sz) heap)"
          using pos eq assms(2) by simp
        ultimately show ?thesis using True s d \<open>\<not> sz < K\<close> by simp
      qed
    qed
  qed
  then show ?thesis by blast
qed

section \<open>The count of the scan\<close>





section \<open>Reading what was written\<close>

lemma u32_join:
  "(ucast (ucast w :: byte) OR push_bit 8 (ucast (ucast (drop_bit 8 w) :: byte)) OR
    push_bit 16 (ucast (ucast (drop_bit 16 w) :: byte)) OR
    push_bit 24 (ucast (ucast (drop_bit 24 w) :: byte))) = (w :: 32 word)"
proof (rule bit_word_eqI)
  fix n assume "n < LENGTH(32)"
  then show "bit (ucast (ucast w :: byte) OR push_bit 8 (ucast (ucast (drop_bit 8 w) :: byte)) OR
    push_bit 16 (ucast (ucast (drop_bit 16 w) :: byte)) OR
    push_bit 24 (ucast (ucast (drop_bit 24 w) :: byte)) :: 32 word) n = bit w n"
    by (cases "n < 8"; cases "n < 16"; cases "n < 24") (auto simp: bit_simps)
qed

lemma length_u32_bytes [simp]: "length (u32_bytes w) = 4"
  by (simp add: u32_bytes_def)

lemma length_encode_floats [simp]: "length (encode_floats ws) = 4 * length ws"
  by (induction ws) (simp_all add: encode_floats_def)

lemma encode_floats_Cons: "encode_floats (w # ws) = u32_bytes w @ encode_floats ws"
  by (simp add: encode_floats_def)

lemma length_LPStr [simp]: "length (LPStr s) = 4 + length s"
  by (simp add: LPStr_def)

lemma u32_at_drop:
  assumes "drop p A = u32_bytes w @ rest"
  shows "u32_at A p = w" and "p + 4 \<le> length A" and "drop (p + 4) A = rest"
proof -
  have "length (drop p A) = 4 + length rest" using assms by simp
  then show len: "p + 4 \<le> length A" by simp
  have nth: "A ! (p + k) = (u32_bytes w @ rest) ! k" for k
    using len assms by (metis nth_drop add_leD1)
  show "u32_at A p = w"
    using nth[of 0] nth[of 1] nth[of 2] nth[of 3]
    by (simp add: u32_at_def u32_bytes_def u32_join)
  have "drop (p + 4) A = drop 4 (drop p A)" by (simp add: add.commute)
  then show "drop (p + 4) A = rest" using assms by simp
qed

lemma read_u32_drop:
  "drop p A = u32_bytes w @ rest \<Longrightarrow> read_u32 A p = Inr (w, p + 4)"
  using u32_at_drop[of p A w rest] by (simp add: read_u32_def)

lemma unat_length: "n < 4294967296 \<Longrightarrow> unat (word_of_nat n :: 32 word) = n"
  by (simp add: unat_of_nat)

lemma read_str_drop:
  assumes "drop p A = LPStr s @ rest" and "length s < 4294967296"
  shows "read_str A p = Inr (p + 4, p + 4 + length s)"
    and "drop (p + 4 + length s) A = rest"
    and "bytes_at A (p + 4) (length s) = s"
proof -
  have d: "drop p A = u32_bytes (word_of_nat (length s)) @ (s @ rest)"
    using assms(1) by (simp add: LPStr_def)
  note u = u32_at_drop[OF d]
  show "read_str A p = Inr (p + 4, p + 4 + length s)"
    using u assms(2) by (simp add: read_str_def unat_length)
  have "drop (p + 4 + length s) A = drop (length s) (drop (p + 4) A)"
    by (simp add: add.commute)
  then show "drop (p + 4 + length s) A = rest" using u(3) by simp
  show "bytes_at A (p + 4) (length s) = s" using u(3) by (simp add: bytes_at_def)
qed

lemma drop_encode_floats: "drop (4 * k) (encode_floats ws) = encode_floats (drop k ws)"
proof (induction ws arbitrary: k)
  case Nil
  then show ?case by (simp add: encode_floats_def)
next
  case (Cons w ws)
  show ?case
  proof (cases k)
    case 0
    then show ?thesis by simp
  next
    case (Suc j)
    then show ?thesis using Cons[of j] by (simp add: encode_floats_Cons)
  qed
qed

lemma words_at_drop:
  assumes "drop p A = encode_floats ws @ rest"
  shows "map (\<lambda>k. u32_at A (p + 4 * k)) [0..<length ws] = ws"
proof (rule nth_equalityI)
  show "length (map (\<lambda>k. u32_at A (p + 4 * k)) [0..<length ws]) = length ws" by simp
next
  fix k assume "k < length (map (\<lambda>k. u32_at A (p + 4 * k)) [0..<length ws])"
  then have k: "k < length ws" by simp
  have "drop (p + 4 * k) A = drop (4 * k) (drop p A)" by (simp add: add.commute)
  also have "\<dots> = encode_floats (drop k ws) @ rest"
    using assms k by (simp add: drop_encode_floats)
  also have "\<dots> = u32_bytes (ws ! k) @ (encode_floats (drop (Suc k) ws) @ rest)"
    using k by (simp add: Cons_nth_drop_Suc[symmetric] encode_floats_Cons)
  finally have "u32_at A (p + 4 * k) = ws ! k" by (rule u32_at_drop(1))
  then show "map (\<lambda>k. u32_at A (p + 4 * k)) [0..<length ws] ! k = ws ! k"
    using k by simp
qed

section \<open>Claims about the kernels\<close>

lemma simd_dot_main_eq: "simd_dot_main fp x y n i s = neon_dot_main fp x y n i s"
proof (induction fp x y n i s rule: neon_dot_main.induct)
  case (1 fp x y n i sum_v)
  then show ?case
    by (subst simd_dot_main.simps, subst neon_dot_main.simps) simp
qed

lemma simd_dot_tail_eq: "simd_dot_tail fp x y n i s = neon_dot_tail fp x y n i s"
proof (induction fp x y n i s rule: neon_dot_tail.induct)
  case (1 fp x y n i s)
  then show ?case
    by (subst simd_dot_tail.simps, subst neon_dot_tail.simps) simp
qed

lemma old_dot_main_eq: "old_dot_main fp x y n i s = neon_dot_main fp x y n i s"
proof (induction fp x y n i s rule: neon_dot_main.induct)
  case (1 fp x y n i sum_v)
  then show ?case
    by (subst old_dot_main.simps, subst neon_dot_main.simps) simp
qed

lemma old_dot_tail_eq: "old_dot_tail fp x y n i s = neon_dot_tail fp x y n i s"
proof (induction fp x y n i s rule: neon_dot_tail.induct)
  case (1 fp x y n i s)
  then show ?case
    by (subst old_dot_tail.simps, subst neon_dot_tail.simps) simp
qed

text \<open>
  C10.  The three NEON dot-product kernels, \<^verbatim>\<open>f32_dot_product_neon\<close> of
  \<^verbatim>\<open>src/C/cosine_neon.c\<close>, the NEON branch of \<^verbatim>\<open>f32_dot_product_simd\<close> of
  \<^verbatim>\<open>src/C/cosine_simd.c\<close> and \<^verbatim>\<open>f32_dot_product_neon\<close> of \<^verbatim>\<open>src/simd/cosine_neon.c\<close>,
  return the same value for every pair of vectors and every size, on every
  floating-point unit.
\<close>

theorem dot_product_variants_agree:
  "f32_dot_product_simd fp x y n = f32_dot_product_neon fp x y n \<and>
   simd_dir_f32_dot_product_neon fp x y n = f32_dot_product_neon fp x y n"
  by (simp add: f32_dot_product_simd_def simd_dir_f32_dot_product_neon_def
      f32_dot_product_neon_def simd_dot_main_eq simd_dot_tail_eq old_dot_main_eq old_dot_tail_eq)

lemma neon_dot_tail_foldl:
  "neon_dot_tail fp x y n i s =
     foldl (\<lambda>s i. f_add fp s (f_mul fp (x ! i) (y ! i))) s [i..<n]"
proof (induction fp x y n i s rule: neon_dot_tail.induct)
  case (1 fp x y n i s)
  show ?case
  proof (cases "i < n")
    case True
    then show ?thesis using 1
      by (subst neon_dot_tail.simps) (simp add: upt_conv_Cons)
  next
    case False
    then show ?thesis by (subst neon_dot_tail.simps) simp
  qed
qed

lemma neon_dot_main_foldl:
  "neon_dot_main fp x y n (4 * k) v =
     (4 * max k (n div 4),
      foldl (\<lambda>v k. vmlaq_f32 fp v (vld1q_f32 x (4 * k)) (vld1q_f32 y (4 * k))) v [k..<n div 4])"
proof (induction fp x y n "4 * k" v arbitrary: k rule: neon_dot_main.induct)
  case (1 fp x y n sum_v)
  show ?case
  proof (cases "4 * k + 4 \<le> n")
    case True
    then have lt: "k < n div 4" by linarith
    have "neon_dot_main fp x y n (4 * k + 4) (vmlaq_f32 fp sum_v (vld1q_f32 x (4 * k)) (vld1q_f32 y (4 * k)))
        = (4 * max (Suc k) (n div 4),
           foldl (\<lambda>v k. vmlaq_f32 fp v (vld1q_f32 x (4 * k)) (vld1q_f32 y (4 * k)))
             (vmlaq_f32 fp sum_v (vld1q_f32 x (4 * k)) (vld1q_f32 y (4 * k))) [Suc k..<n div 4])"
      using "1.hyps"[OF True, of "Suc k"] by (simp add: add.commute)
    then show ?thesis using True lt
      by (subst neon_dot_main.simps) (simp add: upt_conv_Cons max_def)
  next
    case False
    then have "n div 4 \<le> k" by linarith
    then show ?thesis using False
      by (subst neon_dot_main.simps) (simp add: max_def)
  qed
qed

text \<open>
  C7, as the code has it.  The aligned portion, the first \<open>4 * (n div 4)\<close> elements, is
  accumulated lane by lane with the single-precision multiply-accumulate and reduced
  horizontally in single precision; the products of the tail are formed and added in
  single precision onto that sum; the only widening to double is the cast of the
  final single-precision sum.
\<close>

theorem dot_product_precision:
  "f32_dot_product_neon fp x y n =
     widen fp
       (foldl (\<lambda>s i. f_add fp s (f_mul fp (x ! i) (y ! i)))
          (vaddvq_f32 fp
             (foldl (\<lambda>v k. vmlaq_f32 fp v (vld1q_f32 x (4 * k)) (vld1q_f32 y (4 * k)))
                (vmovq_n_f32 (f_zero fp)) [0..<n div 4]))
          [4 * (n div 4)..<n]) \<and>
   f32_dot_product_simd fp x y n = f32_dot_product_neon fp x y n"
  using neon_dot_main_foldl[of fp x y n 0]
  by (simp add: f32_dot_product_neon_def f32_dot_product_simd_def neon_dot_tail_foldl
      simd_dot_main_eq simd_dot_tail_eq)

text \<open>
  C7, as the specification has it, fails: with an aligned portion that sums to \<open>2^24\<close>
  and a tail product of 1, the code adds the tail in single precision and returns
  \<open>2^24\<close>, where a tail added in double precision gives \<open>2^24 + 1\<close>.
\<close>

theorem dot_product_tail_not_double:
  "f32_dot_product_neon arm_fpu [Num 4096, Num 0, Num 0, Num 0, Num 1]
     [Num 4096, Num 0, Num 0, Num 0, Num 1] 5 = Num 16777216 \<and>
   dotProduct_claimed arm_fpu [Num 4096, Num 0, Num 0, Num 0, Num 1]
     [Num 4096, Num 0, Num 0, Num 0, Num 1] 5 = Num 16777217"
  by code_simp

section \<open>Claims about normalisation\<close>

lemma norm_scale_tail_map:
  "length v = d \<Longrightarrow> i \<le> d \<Longrightarrow>
   norm_scale_tail fp v d i inv1 = take i v @ map (\<lambda>x. f_mul fp x inv1) (drop i v)"
proof (induction fp v d i inv1 rule: norm_scale_tail.induct)
  case (1 fp v d i inv1)
  show ?case
  proof (cases "i < d")
    case False
    then show ?thesis using "1.prems" by (subst norm_scale_tail.simps) simp
  next
    case True
    let ?v = "v[i := f_mul fp (v ! i) inv1]"
    have "norm_scale_tail fp ?v d (i + 1) inv1 =
            take (i + 1) ?v @ map (\<lambda>x. f_mul fp x inv1) (drop (i + 1) ?v)"
      using "1.IH"[OF True] "1.prems" True by simp
    also have "\<dots> = take i v @ map (\<lambda>x. f_mul fp x inv1) (drop i v)"
      using True "1.prems"
      by (simp add: take_Suc_conv_app_nth Cons_nth_drop_Suc[symmetric])
    finally show ?thesis using True by (subst norm_scale_tail.simps) simp
  qed
qed

lemma vst1q_take_drop:
  assumes "i + 4 \<le> length v"
  shows "vst1q_f32 v i (vmulq_f32 fp (vld1q_f32 v i) (vdupq_n_f32 s)) =
           take i v @ map (\<lambda>x. f_mul fp x s) (take 4 (drop i v)) @ drop (i + 4) v"
proof (rule nth_equalityI)
  show "length (vst1q_f32 v i (vmulq_f32 fp (vld1q_f32 v i) (vdupq_n_f32 s))) =
        length (take i v @ map (\<lambda>x. f_mul fp x s) (take 4 (drop i v)) @ drop (i + 4) v)"
    using assms by (simp add: vst1q_f32_def vmulq_f32_def vld1q_f32_def vdupq_n_f32_def)
next
  fix k assume "k < length (vst1q_f32 v i (vmulq_f32 fp (vld1q_f32 v i) (vdupq_n_f32 s)))"
  then have k: "k < length v"
    by (simp add: vst1q_f32_def vmulq_f32_def vld1q_f32_def vdupq_n_f32_def)
  consider "k < i" | "k = i" | "k = i + 1" | "k = i + 2" | "k = i + 3" | "i + 4 \<le> k"
    by linarith
  then show "vst1q_f32 v i (vmulq_f32 fp (vld1q_f32 v i) (vdupq_n_f32 s)) ! k =
        (take i v @ map (\<lambda>x. f_mul fp x s) (take 4 (drop i v)) @ drop (i + 4) v) ! k"
    using assms k
    by cases
      (auto simp: vst1q_f32_def vmulq_f32_def vld1q_f32_def vdupq_n_f32_def nth_append
        add.commute)
qed

lemma norm_scale_all:
  "length v = d \<Longrightarrow> i \<le> d \<Longrightarrow>
   (case norm_scale_main fp v d i (vdupq_n_f32 inv1) of
      (j, v1) \<Rightarrow> norm_scale_tail fp v1 d j inv1) =
   take i v @ map (\<lambda>x. f_mul fp x inv1) (drop i v)"
proof (induction fp v d i "vdupq_n_f32 inv1 :: 'a float32x4" rule: norm_scale_main.induct)
  case (1 fp v d i)
  show ?case
  proof (cases "i + 4 \<le> d")
    case False
    then show ?thesis using "1.prems"
      by (subst norm_scale_main.simps) (simp add: norm_scale_tail_map)
  next
    case True
    let ?m = "\<lambda>x. f_mul fp x inv1"
    let ?v = "vst1q_f32 v i (vmulq_f32 fp (vld1q_f32 v i) (vdupq_n_f32 inv1))"
    have v: "?v = take i v @ map ?m (take 4 (drop i v)) @ drop (i + 4) v"
      using True "1.prems" by (intro vst1q_take_drop) simp
    then have l: "length ?v = d" using True "1.prems" by simp
    have "(case norm_scale_main fp ?v d (i + 4) (vdupq_n_f32 inv1) of
             (j, v1) \<Rightarrow> norm_scale_tail fp v1 d j inv1) =
          take (i + 4) ?v @ map ?m (drop (i + 4) ?v)"
      using "1.hyps"[OF True l] True by simp
    also have "take (i + 4) ?v = take i v @ map ?m (take 4 (drop i v))"
      using True "1.prems" by (subst v) simp
    also have "drop (i + 4) ?v = drop (i + 4) v"
      using True "1.prems" by (subst v) simp
    also have "(take i v @ map ?m (take 4 (drop i v))) @ map ?m (drop (i + 4) v) =
               take i v @ map ?m (drop i v)"
    proof -
      have "drop (i + 4) v = drop 4 (drop i v)" by (simp add: add.commute)
      then have "map ?m (take 4 (drop i v)) @ map ?m (drop (i + 4) v) = map ?m (drop i v)"
        by (metis append_take_drop_id map_append)
      then show ?thesis by simp
    qed
    finally show ?thesis using True by (subst norm_scale_main.simps) simp
  qed
qed

lemma norm_neon_map:
  "length v = d \<Longrightarrow>
   norm_neon fp v d = map (\<lambda>x. f_mul fp x (norm_neon_inv fp (norm_neon_sum fp v d))) v"
  using norm_scale_all[of v d 0 fp "norm_neon_inv fp (norm_neon_sum fp v d)"]
  by (simp add: norm_neon_def Let_def)


lemma ieee_mul_NaN: "ieee_mul r a NaN = NaN"
  by (cases a) simp_all

lemma arm_inv_zero: "norm_neon_inv arm_fpu (Num 0) = NaN"
  by code_simp

lemma round32_zero: "round32 0 = Num 0"
  by (simp add: round32_def fp_round_def)

lemma arm_mla_zero: "f_mla arm_fpu (Num 0) (Num 0) (Num 0) = Num 0"
  by (simp add: arm_fpu_def round32_zero)

lemma norm_sq_main_zero:
  "\<exists>j. norm_sq_main arm_fpu (replicate d (Num 0)) d i (Num 0, Num 0, Num 0, Num 0) =
         (j, (Num 0, Num 0, Num 0, Num 0))"
proof (induction arm_fpu "replicate d (Num 0)" d i "(Num 0, Num 0, Num 0, Num 0)"
    rule: norm_sq_main.induct)
  case (1 d i)
  show ?case
  proof (cases "i + 4 \<le> d")
    case False
    then show ?thesis by (subst norm_sq_main.simps) simp
  next
    case True
    have "vmlaq_f32 arm_fpu (Num 0, Num 0, Num 0, Num 0) (vld1q_f32 (replicate d (Num 0)) i)
            (vld1q_f32 (replicate d (Num 0)) i) = (Num 0, Num 0, Num 0, Num 0)"
      using True by (simp add: vmlaq_f32_def vld1q_f32_def arm_mla_zero)
    then show ?thesis using True "1.hyps"[OF True]
      by (subst norm_sq_main.simps) simp
  qed
qed

lemma norm_sq_tail_zero:
  "norm_sq_tail arm_fpu (replicate d (Num 0)) d i (Num 0) = Num 0"
proof (induction arm_fpu "replicate d (Num 0)" d i "Num 0 :: ieee" rule: norm_sq_tail.induct)
  case (1 d i)
  show ?case
  proof (cases "i < d")
    case False
    then show ?thesis by (subst norm_sq_tail.simps) simp
  next
    case True
    have "f_add arm_fpu (Num 0)
            (f_mul arm_fpu (replicate d (Num 0) ! i) (replicate d (Num 0) ! i)) = Num 0"
      using True by (simp add: arm_fpu_def round32_zero)
    then show ?thesis using True "1.hyps"[OF True]
      by (subst norm_sq_tail.simps) simp
  qed
qed

lemma norm_neon_sum_zero: "norm_neon_sum arm_fpu (replicate d (Num 0)) d = Num 0"
proof -
  obtain j where "norm_sq_main arm_fpu (replicate d (Num 0)) d 0 (Num 0, Num 0, Num 0, Num 0) =
      (j, (Num 0, Num 0, Num 0, Num 0))"
    using norm_sq_main_zero by blast
  moreover have "vaddvq_f32 arm_fpu (Num 0, Num 0, Num 0, Num 0) = Num 0"
    by (simp add: vaddvq_f32_def arm_fpu_def round32_zero)
  moreover have "vmovq_n_f32 (f_zero arm_fpu) = (Num 0, Num 0, Num 0, Num 0)"
    by (simp add: vmovq_n_f32_def arm_fpu_def)
  ultimately show ?thesis
    by (simp add: norm_neon_sum_def norm_sq_tail_zero)
qed

lemma norm_neon_zero_sum:
  assumes "length v = d" and "norm_neon_sum arm_fpu v d = Num 0"
  shows "norm_neon arm_fpu v d = replicate d NaN"
proof -
  have "norm_neon arm_fpu v d = map (\<lambda>x. ieee_mul round32 x NaN) v"
    using norm_neon_map[OF assms(1), of arm_fpu] assms(2)
    by (simp add: arm_inv_zero) (simp add: arm_fpu_def)
  also have "\<dots> = replicate d NaN"
    using assms(1) by (simp add: ieee_mul_NaN map_replicate_const)
  finally show ?thesis .
qed

lemma norm_simd_scalar_zero_sum:
  "s_eq sp (scalar_sq_loop sp v d 0 (s_zero sp)) (s_zero sp) \<Longrightarrow> norm_simd_scalar sp v d = v"
  by (simp add: norm_simd_scalar_def)

text \<open>
  C3.  \<^verbatim>\<open>norm_neon\<close>, the routine the loader calls, has no test of the sum of squares.
  For every vector whose sum of squares is zero, and so for the all-zero vector of
  every dimension, the estimate of the reciprocal square root of zero is infinite, the
  refinement multiplies zero by infinity, and every component is overwritten with a
  NaN.
\<close>

theorem norm_neon_zero_vector:
  "(length v = d \<and> norm_neon_sum arm_fpu v d = Num 0 \<longrightarrow>
      norm_neon arm_fpu v d = replicate d NaN) \<and>
   norm_neon_sum arm_fpu (replicate d (Num 0)) d = Num 0 \<and>
   norm_neon arm_fpu (replicate d (Num 0)) d = replicate d NaN"
  by (simp add: norm_neon_zero_sum norm_neon_sum_zero)

theorem norm_neon_zero_vector_witness:
  "norm_neon_sum arm_fpu [Num 0, Num 0, Num 0, Num 0, Num 0] 5 = Num 0 \<and>
   norm_neon arm_fpu [Num 0, Num 0, Num 0, Num 0, Num 0] 5 = [NaN, NaN, NaN, NaN, NaN]"
proof -
  have r: "replicate 5 (Num 0) = [Num 0, Num 0, Num 0, Num 0, Num 0]"
    "replicate 5 NaN = [NaN, NaN, NaN, NaN, NaN]"
    by (simp_all add: numeral_eq_Suc)
  have l: "length [Num 0, Num 0, Num 0, Num 0, Num 0] = 5" by simp
  have s: "norm_neon_sum arm_fpu [Num 0, Num 0, Num 0, Num 0, Num 0] 5 = Num 0"
    using norm_neon_zero_vector[of "[]" 5] by (simp add: r)
  show ?thesis
    using norm_neon_zero_vector[of "[Num 0, Num 0, Num 0, Num 0, Num 0]" 5] l s r by simp
qed

section \<open>Claims about the search\<close>

text \<open>
  C4.  With \<open>K = 0\<close> the search returns no entry only for a corpus without eligible
  record.  As soon as one record is eligible, the scan compares its score with
  \<^verbatim>\<open>heap[0]\<close> of an array of no entries: the access is outside the heap.
\<close>

theorem search_K_zero:
  "ci_search fp ci q dim' 0 =
     (if n_eligible ci dim' 0 (unat (N ci)) = 0
      then Inr \<lparr>count = 0, out_i = [], out_s = []\<rparr>
      else Inl HeapOutOfBounds)"
  by (simp add: ci_search_def scan_K0)

theorem search_K_zero_witness:
  "ci_search arm_fpu mixed_corpus [Num 1, Num 0, Num 0, Num 0] 4 0 = Inl HeapOutOfBounds \<and>
   ci_search arm_fpu mixed_corpus [Num 1] 1 0 = Inr \<lparr>count = 0, out_i = [], out_s = []\<rparr>"
proof -
  have a: "n_eligible mixed_corpus 4 0 (unat (N mixed_corpus)) = 2"
    by code_simp
  have b: "n_eligible mixed_corpus 1 0 (unat (N mixed_corpus)) = 0"
    by code_simp
  show ?thesis
    using search_K_zero[of arm_fpu mixed_corpus "[Num 1, Num 0, Num 0, Num 0]" 4]
      search_K_zero[of arm_fpu mixed_corpus "[Num 1]" 1] a b
    by simp
qed



text \<open>
  C6.  A record whose dimension differs from the query's is never scored and never
  counted: replacing such records by any other records of a dimension different from
  the query's leaves the outcome of the search as it is; every returned index is the
  index of a record of the query's dimension, and the count is at most the number of
  these records.  The skipped record raises no fault: the round that visits it leaves
  the heap and the count as they are.
\<close>

theorem mismatched_dimension_skipped:
  "(N ci' = N ci \<and> arena ci' = arena ci \<and>
    (\<forall>j<unat (N ci). chunks ci' ! j = chunks ci ! j \<or>
       (c_dim (chunks ci ! j) \<noteq> dim' \<and> c_dim (chunks ci' ! j) \<noteq> dim'))
    \<longrightarrow> ci_search fp ci' q dim' K = ci_search fp ci q dim' K) \<and>
   (\<forall>r. ci_search fp ci q dim' K = Inr r \<longrightarrow>
      (\<forall>j\<in>set (out_i r). unat j < unat (N ci) \<and> c_dim (chunks ci ! unat j) = dim') \<and>
      unat (count r) \<le> n_eligible ci dim' 0 (unat (N ci))) \<and>
   (\<forall>i st. c_dim (chunks ci ! i) \<noteq> dim' \<longrightarrow> visit fp ci q dim' K i st = Inr st)"
proof (intro conjI allI impI)
  assume a: "N ci' = N ci \<and> arena ci' = arena ci \<and>
    (\<forall>j<unat (N ci). chunks ci' ! j = chunks ci ! j \<or>
       (c_dim (chunks ci ! j) \<noteq> dim' \<and> c_dim (chunks ci' ! j) \<noteq> dim'))"
  then have "scan fp ci' q dim' K 0 st = scan fp ci q dim' K 0 st" for st
    by (intro scan_cong) (auto simp: eligible_def)
  then show "ci_search fp ci' q dim' K = ci_search fp ci q dim' K"
    by (simp add: ci_search_def)
next
  fix r
  assume s: "ci_search fp ci q dim' K = Inr r"
  let ?h0 = "replicate (unat K) \<lparr>score = d_zero fp, idx = 0\<rparr>"
  from s obtain heap sz where sc: "scan fp ci q dim' K 0 (?h0, 0) = Inr (heap, sz)"
    and r: "r = \<lparr>count = sz, out_i = map idx (take (unat sz) heap),
                  out_s = map score (take (unat sz) heap)\<rparr>"
    by (auto simp: ci_search_def split: sum.splits)
  from scan_retained[OF sc] have
    c: "unat sz \<le> n_eligible ci dim' 0 (unat (N ci))" and
    sub: "set (take (unat sz) heap) \<subseteq>
            cand fp ci q dim' ` {j. j < unat (N ci) \<and> eligible ci dim' j}"
    by simp_all
  show "unat (count r) \<le> n_eligible ci dim' 0 (unat (N ci))" using c r by simp
  show "\<forall>j\<in>set (out_i r). unat j < unat (N ci) \<and> c_dim (chunks ci ! unat j) = dim'"
  proof
    fix j assume "j \<in> set (out_i r)"
    then obtain e where e: "e \<in> set (take (unat sz) heap)" and j: "j = idx e"
      using r by auto
    from e sub obtain k where k: "k < unat (N ci)" "eligible ci dim' k" and ek: "e = cand fp ci q dim' k"
      by blast
    have "unat (word_of_nat k :: 32 word) = k"
      using k(1) by (intro le_unat_uoi[where z = "N ci"]) simp
    then show "unat j < unat (N ci) \<and> c_dim (chunks ci ! unat j) = dim'"
      using j ek k by (simp add: cand_def eligible_def)
  qed
next
  fix i st assume "c_dim (chunks ci ! i) \<noteq> dim'"
  then show "visit fp ci q dim' K i st = Inr st"
    by (intro visit_skip) (simp add: eligible_def)
qed


theorem mismatched_dimension_skipped_witness:
  "ci_search arm_fpu mixed_corpus_alt [Num 1, Num 0, Num 0, Num 0] 4 2 =
     ci_search arm_fpu mixed_corpus [Num 1, Num 0, Num 0, Num 0] 4 2 \<and>
   ci_search arm_fpu mixed_corpus [Num 1, Num 0, Num 0, Num 0] 4 2 =
     Inr \<lparr>count = 2, out_i = [1, 0], out_s = [Num 0, Num 1]\<rparr> \<and>
   c_dim (chunks mixed_corpus ! unat (1 :: 32 word)) = 4 \<and>
   c_dim (chunks mixed_corpus ! 2) = 2 \<and>
   visit arm_fpu mixed_corpus [Num 1, Num 0, Num 0, Num 0] 4 2 2 ([], 0) = Inr ([], 0)"
proof -
  let ?q = "[Num 1, Num 0, Num 0, Num 0]"
  have n: "unat (N mixed_corpus) = 3" by (simp add: mixed_corpus_def)
  have p: "N mixed_corpus_alt = N mixed_corpus \<and> arena mixed_corpus_alt = arena mixed_corpus \<and>
    (\<forall>j<unat (N mixed_corpus). chunks mixed_corpus_alt ! j = chunks mixed_corpus ! j \<or>
       (c_dim (chunks mixed_corpus ! j) \<noteq> 4 \<and> c_dim (chunks mixed_corpus_alt ! j) \<noteq> 4))"
    unfolding n
    by (simp add: mixed_corpus_def mixed_corpus_alt_def plain_chunk_def numeral_3_eq_3
        All_less_Suc)
  have e: "ci_search arm_fpu mixed_corpus ?q 4 2 =
      Inr \<lparr>count = 2, out_i = [1, 0], out_s = [Num 0, Num 1]\<rparr>"
    by code_simp
  have d: "c_dim (chunks mixed_corpus ! 2) = 2"
    by (simp add: mixed_corpus_def plain_chunk_def)
  note t = mismatched_dimension_skipped[of mixed_corpus_alt mixed_corpus 4 arm_fpu ?q 2]
  have 1: "ci_search arm_fpu mixed_corpus_alt ?q 4 2 = ci_search arm_fpu mixed_corpus ?q 4 2"
    using t p by blast
  from t e have "\<forall>j\<in>set (out_i \<lparr>count = 2, out_i = [1, 0 :: 32 word], out_s = [Num 0, Num 1]\<rparr>).
      unat j < unat (N mixed_corpus) \<and> c_dim (chunks mixed_corpus ! unat j) = 4"
    by blast
  then have 2: "c_dim (chunks mixed_corpus ! unat (1 :: 32 word)) = 4"
    by simp
  from t have "\<forall>i st. c_dim (chunks mixed_corpus ! i) \<noteq> 4 \<longrightarrow>
      visit arm_fpu mixed_corpus ?q 4 2 i st = Inr st"
    by blast
  then have 3: "visit arm_fpu mixed_corpus ?q 4 2 2 ([], 0) = Inr ([], 0)"
    using d by simp
  show ?thesis using 1 2 3 e d by blast
qed

text \<open>
  C9.  The search is the sequence of its rounds, and in every round, on the heap of \<open>K\<close>
  entries of which \<open>sz\<close> are filled when the round starts: a record of another dimension
  changes nothing; while \<open>sz < K\<close> the candidate is added to the retained entries; on a
  full heap the candidate takes the place of the root entry, and of no other, when its
  score is strictly greater than the root's score, and otherwise the heap stays as it
  is.  So a candidate whose score no retained score is strictly below, such as one
  equal to the least retained score, displaces nothing in the round in which it
  arrives.
\<close>

theorem root_replaced_only_by_greater:
  "ci_search fp ci q dim' K =
     (case scan_prefix fp ci q dim' K (unat (N ci)) of
        Inl e \<Rightarrow> Inl e
      | Inr (heap, sz) \<Rightarrow>
          Inr \<lparr>count = sz, out_i = map idx (take (unat sz) heap),
               out_s = map score (take (unat sz) heap)\<rparr>) \<and>
   (scan_prefix fp ci q dim' K i = Inr (heap, sz) \<and>
    visit fp ci q dim' K i (heap, sz) = Inr (heap', sz') \<longrightarrow>
      (if c_dim (chunks ci ! i) \<noteq> dim' then heap' = heap \<and> sz' = sz
       else if sz < K
       then sz' = sz + 1 \<and>
            mset (take (unat sz') heap') =
              add_mset (cand fp ci q dim' i) (mset (take (unat sz) heap))
       else if d_less fp (score (heap ! 0)) (score (cand fp ci q dim' i))
       then sz' = sz \<and>
            mset heap' = add_mset (cand fp ci q dim' i) (mset heap - {#heap ! 0#})
       else heap' = heap \<and> sz' = sz) \<and>
      ((\<forall>e\<in>set (take (unat sz) heap). \<not> d_less fp (score e) (score (cand fp ci q dim' i)))
         \<longrightarrow> mset (take (unat sz) heap) \<subseteq># mset (take (unat sz') heap')))"
proof (rule conjI)
  show "ci_search fp ci q dim' K =
     (case scan_prefix fp ci q dim' K (unat (N ci)) of
        Inl e \<Rightarrow> Inl e
      | Inr (heap, sz) \<Rightarrow>
          Inr \<lparr>count = sz, out_i = map idx (take (unat sz) heap),
               out_s = map score (take (unat sz) heap)\<rparr>)"
    by (rule ci_search_prefix)
next
  show "scan_prefix fp ci q dim' K i = Inr (heap, sz) \<and>
    visit fp ci q dim' K i (heap, sz) = Inr (heap', sz') \<longrightarrow>
      (if c_dim (chunks ci ! i) \<noteq> dim' then heap' = heap \<and> sz' = sz
       else if sz < K
       then sz' = sz + 1 \<and>
            mset (take (unat sz') heap') =
              add_mset (cand fp ci q dim' i) (mset (take (unat sz) heap))
       else if d_less fp (score (heap ! 0)) (score (cand fp ci q dim' i))
       then sz' = sz \<and>
            mset heap' = add_mset (cand fp ci q dim' i) (mset heap - {#heap ! 0#})
       else heap' = heap \<and> sz' = sz) \<and>
      ((\<forall>e\<in>set (take (unat sz) heap). \<not> d_less fp (score e) (score (cand fp ci q dim' i)))
         \<longrightarrow> mset (take (unat sz) heap) \<subseteq># mset (take (unat sz') heap'))"
  proof (rule impI)
    assume a: "scan_prefix fp ci q dim' K i = Inr (heap, sz) \<and>
      visit fp ci q dim' K i (heap, sz) = Inr (heap', sz')"
    then have v: "visit fp ci q dim' K i (heap, sz) = Inr (heap', sz')" by simp
    from a scan_prefix_inv[of fp ci q dim' K i heap sz]
    have len: "length heap = unat K" and le: "sz \<le> K" by simp_all
    from v len le show "(if c_dim (chunks ci ! i) \<noteq> dim' then heap' = heap \<and> sz' = sz
       else if sz < K
       then sz' = sz + 1 \<and>
            mset (take (unat sz') heap') =
              add_mset (cand fp ci q dim' i) (mset (take (unat sz) heap))
       else if d_less fp (score (heap ! 0)) (score (cand fp ci q dim' i))
       then sz' = sz \<and>
            mset heap' = add_mset (cand fp ci q dim' i) (mset heap - {#heap ! 0#})
       else heap' = heap \<and> sz' = sz) \<and>
      ((\<forall>e\<in>set (take (unat sz) heap). \<not> d_less fp (score e) (score (cand fp ci q dim' i)))
         \<longrightarrow> mset (take (unat sz) heap) \<subseteq># mset (take (unat sz') heap'))"
      by (rule round_of_scan)
  qed
qed

theorem root_replaced_only_by_greater_witness:
  "scan_prefix arm_fpu tie_corpus [Num 1] 1 2 2 =
     Inr ([\<lparr>score = Num 4, idx = 0\<rparr>, \<lparr>score = Num 16, idx = 1\<rparr>], 2) \<and>
   visit arm_fpu tie_corpus [Num 1] 1 2 2
     ([\<lparr>score = Num 4, idx = 0\<rparr>, \<lparr>score = Num 16, idx = 1\<rparr>], 2) =
     Inr ([\<lparr>score = Num 4, idx = 0\<rparr>, \<lparr>score = Num 16, idx = 1\<rparr>], 2) \<and>
   score (cand arm_fpu tie_corpus [Num 1] 1 2) = Num 4 \<and>
   mset (take (unat (2 :: 32 word)) [\<lparr>score = Num 4, idx = 0\<rparr>, \<lparr>score = Num 16, idx = (1 :: 32 word)\<rparr>])
     \<subseteq># mset (take (unat (2 :: 32 word)) [\<lparr>score = Num 4, idx = 0\<rparr>, \<lparr>score = Num 16, idx = 1\<rparr>])"
proof -
  let ?h = "[\<lparr>score = Num 4, idx = 0\<rparr>, \<lparr>score = Num 16, idx = (1 :: 32 word)\<rparr>]"
  have p: "scan_prefix arm_fpu tie_corpus [Num 1] 1 2 2 = Inr (?h, 2)"
    by code_simp
  have v: "visit arm_fpu tie_corpus [Num 1] 1 2 2 (?h, 2) = Inr (?h, 2)"
    by code_simp
  have c: "score (cand arm_fpu tie_corpus [Num 1] 1 2) = Num 4"
    by code_simp
  have h: "\<forall>e\<in>set (take (unat (2 :: 32 word)) ?h).
             \<not> d_less arm_fpu (score e) (score (cand arm_fpu tie_corpus [Num 1] 1 2))"
    unfolding c by (simp add: arm_fpu_def)
  from root_replaced_only_by_greater[of arm_fpu tie_corpus "[Num 1]" 1 2 2 ?h 2 ?h 2] p v h
  have "mset (take (unat (2 :: 32 word)) ?h) \<subseteq># mset (take (unat (2 :: 32 word)) ?h)"
    by blast
  then show ?thesis using p v c by blast
qed

text \<open>
  C9, the scan as a whole.  Which of two retained entries of equal score leaves the heap
  later is decided by their places in the heap, not by their order of arrival: with the
  scores 5, 1, 2, 5, 6, 7 and \<open>K = 3\<close> the search returns the records 3, 4 and 5.  Record
  0, the first with the score 5, was retained and is displaced by record 5, while
  record 3, which came later with the same score, stays.
\<close>

theorem later_tie_outlives_earlier:
  "map (\<lambda>j. score (cand arm_fpu late_tie_corpus [Num 1] 1 j)) [0, 1, 2, 3, 4, 5] =
     [Num 5, Num 1, Num 2, Num 5, Num 6, Num 7] \<and>
   ci_search arm_fpu late_tie_corpus [Num 1] 1 3 =
     Inr \<lparr>count = 3, out_i = [3, 4, 5], out_s = [Num 5, Num 6, Num 7]\<rparr>"
  by code_simp

text \<open>
  C1.  On five eligible records with the scores 4, 16, 8, 1 and 2 and \<open>K = 4\<close>, the search
  returns the records 0 to 3: the record with the score 1 is returned and the record
  with the score 2 is not.  The four rounds of \<^verbatim>\<open>sift_down\<close> that follow the fourth
  insertion all start at the root and leave the least score, 1, at position 3; the
  fifth score is then compared with the root's score, 4.
\<close>

theorem search_misses_top_k:
  "ci_search arm_fpu heap_corpus [Num 1] 1 4 =
     Inr \<lparr>count = 4, out_i = [0, 1, 2, 3], out_s = [Num 4, Num 16, Num 8, Num 1]\<rparr> \<and>
   map (\<lambda>j. score (cand arm_fpu heap_corpus [Num 1] 1 j)) [0, 1, 2, 3, 4] =
     [Num 4, Num 16, Num 8, Num 1, Num 2] \<and>
   \<not> topk_correct arm_fpu heap_corpus [Num 1] 1
       \<lparr>count = 4, out_i = [0, 1, 2, 3], out_s = [Num 4, Num 16, Num 8, Num 1]\<rparr>"
  by code_simp

section \<open>Normalising an embedding of unit length\<close>

text \<open>
  Rounding to binary32 moves a number below 2 by at most \<open>2^-24\<close>.  For a sum of squares
  \<open>s\<close> within \<open>2^-11\<close> of 1 the estimate of \<^verbatim>\<open>vrsqrteq_f32\<close> is \<open>511/512\<close> or 1, and the
  two refinement lines of \<^verbatim>\<open>norm_neon\<close> are followed with an interval for each
  intermediate value.
\<close>

lemma bitlen_nonneg: "0 \<le> bitlen n"
proof (induction n rule: bitlen.induct)
  case (1 n)
  then show ?case by (subst bitlen.simps) simp
qed

lemma bitlen_1: "bitlen 1 = 1"
  by (simp add: bitlen.simps)

lemma ilog2_le_0:
  assumes "\<bar>x\<bar> < 2"
  shows "ilog2 x \<le> 0"
proof (cases "1 \<le> \<bar>x\<bar>")
  case True
  then have "\<lfloor>\<bar>x\<bar>\<rfloor> = 1" using assms by (simp add: floor_eq_iff)
  then show ?thesis using True by (simp add: ilog2_def bitlen_1)
next
  case False
  then show ?thesis using bitlen_nonneg[of "\<lceil>1 / \<bar>x\<bar>\<rceil> - 1"] by (simp add: ilog2_def)
qed

lemma round_even_near: "\<bar>of_int (round_even m) - m\<bar> \<le> 1 / 2"
proof -
  have "of_int \<lfloor>m\<rfloor> \<le> m" "m < of_int \<lfloor>m\<rfloor> + 1" by linarith+
  then show ?thesis
    unfolding round_even_def Let_def by (auto simp: abs_le_iff)
qed

lemma pow2_small:
  assumes "e \<le> 0"
  shows "0 < pow2 (e - 23) \<and> pow2 (e - 23) \<le> 1 / 8388608"
proof -
  have n: "23 \<le> nat (23 - e)" using assms by simp
  have "(2 :: rat) ^ 23 \<le> 2 ^ nat (23 - e)" using n by (intro power_increasing) simp_all
  then have "1 / (2 :: rat) ^ nat (23 - e) \<le> 1 / 2 ^ 23"
    by (intro divide_left_mono) simp_all
  moreover have "pow2 (e - 23) = 1 / 2 ^ nat (23 - e)" using assms by (simp add: pow2_def)
  ultimately show ?thesis by simp
qed

lemma round32_near:
  assumes "\<bar>x\<bar> < 2"
  shows "\<exists>y. fin_val (round32 x) = Some y \<and> \<bar>y - x\<bar> \<le> 1 / 16777216 \<and>
             (0 < x \<longrightarrow> round32 x = Num y)"
proof (cases "x = 0")
  case True
  then show ?thesis by (simp add: round32_def fp_round_def)
next
  case False
  define e where "e = max (ilog2 x) (- 126)"
  define u where "u = pow2 (e - 23)"
  define n where "n = round_even (x / u)"
  define y where "y = of_int n * u"
  have e0: "e \<le> 0" using ilog2_le_0[OF assms] by (simp add: e_def)
  have u: "0 < u" "u \<le> 1 / 8388608" using pow2_small[OF e0] by (simp_all add: u_def)
  have "\<bar>of_int n - x / u\<bar> \<le> 1 / 2" unfolding n_def by (rule round_even_near)
  then have "\<bar>of_int n - x / u\<bar> * u \<le> 1 / 2 * u"
    using u(1) by (intro mult_right_mono) simp_all
  moreover have "\<bar>of_int n - x / u\<bar> * u = \<bar>y - x\<bar>"
  proof -
    have "(of_int n - x / u) * u = y - x" using u(1) by (simp add: y_def field_simps)
    then have "\<bar>y - x\<bar> = \<bar>(of_int n - x / u) * u\<bar>" by simp
    also have "\<dots> = \<bar>of_int n - x / u\<bar> * u" using u(1) by (simp add: abs_mult)
    finally show ?thesis by simp
  qed
  ultimately have near: "\<bar>y - x\<bar> \<le> 1 / 16777216" using u(2) by linarith
  then have "\<bar>y\<bar> < 3" using assms by linarith
  then have small: "\<not> pow2 128 \<le> \<bar>y\<bar>" by (simp add: pow2_def)
  have r: "round32 x = (if y = 0 \<and> x < 0 then NZero else Num y)"
    using False small
    by (simp add: round32_def fp_round_def Let_def e_def[symmetric] u_def[symmetric]
        n_def[symmetric] y_def[symmetric])
  show ?thesis
  proof (cases "y = 0 \<and> x < 0")
    case True
    then show ?thesis using r near by auto
  next
    case False
    then show ?thesis using r near by auto
  qed
qed

lemma mul_bounds:
  fixes x y :: rat
  assumes "0 < xl" "xl \<le> x" "x \<le> xu" "0 < yl" "yl \<le> y" "y \<le> yu" "xu * yu < 2"
  shows "\<exists>z. ieee_mul round32 (Num x) (Num y) = Num z \<and>
             xl * yl - 1 / 16777216 \<le> z \<and> z \<le> xu * yu + 1 / 16777216"
proof -
  have x: "0 < x" and y: "0 < y" using assms by linarith+
  have lo: "xl * yl \<le> x * y" using assms by (intro mult_mono) simp_all
  have hi: "x * y \<le> xu * yu" using assms x y by (intro mult_mono) simp_all
  have p: "0 < x * y" using x y by simp
  then have "\<bar>x * y\<bar> < 2" using hi assms(7) by simp
  from round32_near[OF this] p obtain z where z: "round32 (x * y) = Num z"
    and n: "\<bar>z - x * y\<bar> \<le> 1 / 16777216" by auto
  have m: "ieee_mul round32 (Num x) (Num y) = Num z" using x y z by simp
  have "x * y - 1 / 16777216 \<le> z" "z \<le> x * y + 1 / 16777216" using n by linarith+
  then have "xl * yl - 1 / 16777216 \<le> z" "z \<le> xu * yu + 1 / 16777216"
    using lo hi by linarith+
  then show ?thesis using m by blast
qed

lemma rsqrts_bounds:
  fixes a y :: rat
  assumes "0 < al" "al \<le> a" "a \<le> au" "0 < yl" "yl \<le> y" "y \<le> yu" "au * yu < 3"
  shows "\<exists>z. ieee_rsqrts (Num a) (Num y) = Num z \<and>
             (3 - au * yu) / 2 - 1 / 16777216 \<le> z \<and> z \<le> (3 - al * yl) / 2 + 1 / 16777216"
proof -
  have a: "0 < a" and y: "0 < y" using assms by linarith+
  have lo: "al * yl \<le> a * y" using assms by (intro mult_mono) simp_all
  have hi: "a * y \<le> au * yu" using assms a y by (intro mult_mono) simp_all
  have p0: "0 < al * yl" using assms by simp
  have p: "0 < (3 - a * y) / 2" using hi assms(7) by simp
  have "(3 - a * y) / 2 < 2" using lo p0 by simp
  then have "\<bar>(3 - a * y) / 2\<bar> < 2" using p by simp
  from round32_near[OF this] p obtain z where z: "round32 ((3 - a * y) / 2) = Num z"
    and n: "\<bar>z - (3 - a * y) / 2\<bar> \<le> 1 / 16777216" by auto
  have m: "ieee_rsqrts (Num a) (Num y) = Num z" using z by simp
  have "(3 - a * y) / 2 - 1 / 16777216 \<le> z" "z \<le> (3 - a * y) / 2 + 1 / 16777216"
    using n by linarith+
  moreover have "(3 - au * yu) / 2 \<le> (3 - a * y) / 2" "(3 - a * y) / 2 \<le> (3 - al * yl) / 2"
    using lo hi by simp_all
  ultimately have "(3 - au * yu) / 2 - 1 / 16777216 \<le> z"
    "z \<le> (3 - al * yl) / 2 + 1 / 16777216"
    by linarith+
  then show ?thesis using m by blast
qed

lemma rsqrte_above_one:
  assumes "1 \<le> s" "s \<le> 2049 / 2048"
  shows "ieee_rsqrte (Num s) = Num (511 / 512)"
proof -
  have "\<lfloor>\<bar>s\<bar>\<rfloor> = 1" using assms by (simp add: floor_eq_iff)
  then have e: "ilog2 s = 0" using assms by (simp add: ilog2_def bitlen_1)
  have f: "\<lfloor>(s - 1) * 128\<rfloor> = 0" using assms by (simp add: floor_eq_iff)
  have r: "RecipSqrtEstimate 128 = 511" by code_simp
  show ?thesis using assms e f r by (simp add: Let_def pow2_def)
qed

lemma rsqrte_below_one:
  assumes "2047 / 2048 \<le> s" "s < 1"
  shows "ieee_rsqrte (Num s) = Num 1"
proof -
  have pos: "0 < s" using assms by simp
  have "1 < 1 / s" using assms pos by (simp add: field_simps)
  moreover have "1 / s \<le> 2" using assms pos by (simp add: field_simps)
  ultimately have "\<lceil>1 / \<bar>s\<bar>\<rceil> = 2" using pos by (simp add: ceiling_eq_iff)
  then have e: "ilog2 s = - 1" using assms pos by (simp add: ilog2_def bitlen_1)
  have f: "\<lfloor>(s / (1 / 2) - 1) * 256\<rfloor> = 255" using assms by (simp add: floor_eq_iff)
  have r: "RecipSqrtEstimate 511 = 256" by code_simp
  show ?thesis using assms pos e f r by (simp add: Let_def pow2_def)
qed

lemma norm_neon_inv_arm:
  "norm_neon_inv arm_fpu s =
     (let y0 = ieee_rsqrte s;
          y1 = ieee_mul round32 y0 (ieee_rsqrts (ieee_mul round32 s (ieee_mul round32 y0 y0)) y0)
      in ieee_mul round32 y1 (ieee_rsqrts (ieee_mul round32 s (ieee_mul round32 y1 y1)) y1))"
  by (simp add: norm_neon_inv_def arm_fpu_def vdupq_n_f32_def vrsqrteq_f32_def vmulq_f32_def
      vrsqrtsq_f32_def vgetq_lane_f32_0_def Let_def)


lemma inv_above_one:
  fixes s :: rat
  assumes sA: "1 \<le> s" "s \<le> 2049 / 2048"
  shows "\<exists>c. norm_neon_inv arm_fpu (Num s) = Num c \<and> 1023 / 1024 \<le> c \<and> c \<le> 1025 / 1024"
proof -
  have "\<exists>z. ieee_mul round32 (Num (511 / 512)) (Num (511 / 512)) = Num z \<and>
      (511 / 512) * (511 / 512) - 1 / 16777216 \<le> z \<and> z \<le> (511 / 512) * (511 / 512) + 1 / 16777216"
    by (intro mul_bounds) simp_all
  then obtain t0 where t0: "ieee_mul round32 (Num (511 / 512)) (Num (511 / 512)) = Num t0"
    "(511 / 512) * (511 / 512) - 1 / 16777216 \<le> t0" "t0 \<le> (511 / 512) * (511 / 512) + 1 / 16777216"
    by blast
  have t0_b: "9960975050 / 10000000000 \<le> t0" "t0 \<le> 9960976244 / 10000000000" using t0(2,3) by simp_all
  have "\<exists>z. ieee_mul round32 (Num s) (Num t0) = Num z \<and>
      1 * (9960975050 / 10000000000) - 1 / 16777216 \<le> z \<and> z \<le> (2049 / 2048) * (9960976244 / 10000000000) + 1 / 16777216"
    using sA t0_b by (intro mul_bounds) simp_all
  then obtain a1 where a1: "ieee_mul round32 (Num s) (Num t0) = Num a1"
    "1 * (9960975050 / 10000000000) - 1 / 16777216 \<le> a1" "a1 \<le> (2049 / 2048) * (9960976244 / 10000000000) + 1 / 16777216"
    by blast
  have a1_b: "9960974453 / 10000000000 \<le> a1" "a1 \<le> 9965840598 / 10000000000" using a1(2,3) by simp_all
  have "\<exists>z. ieee_rsqrts (Num a1) (Num (511 / 512)) = Num z \<and>
      (3 - (9965840598 / 10000000000) * (511 / 512)) / 2 - 1 / 16777216 \<le> z \<and> z \<le> (3 - (9960974453 / 10000000000) * (511 / 512)) / 2 + 1 / 16777216"
    using a1_b by (intro rsqrts_bounds) simp_all
  then obtain r1 where r1: "ieee_rsqrts (Num a1) (Num (511 / 512)) = Num r1"
    "(3 - (9965840598 / 10000000000) * (511 / 512)) / 2 - 1 / 16777216 \<le> r1" "r1 \<le> (3 - (9960974453 / 10000000000) * (511 / 512)) / 2 + 1 / 16777216"
    by blast
  have r1_b: "10026811371 / 10000000000 \<le> r1" "r1 \<le> 10029240884 / 10000000000" using r1(2,3) by simp_all
  have "\<exists>z. ieee_mul round32 (Num (511 / 512)) (Num r1) = Num z \<and>
      (511 / 512) * (10026811371 / 10000000000) - 1 / 16777216 \<le> z \<and> z \<le> (511 / 512) * (10029240884 / 10000000000) + 1 / 16777216"
    using r1_b by (intro mul_bounds) simp_all
  then obtain y1 where y1: "ieee_mul round32 (Num (511 / 512)) (Num r1) = Num y1"
    "(511 / 512) * (10026811371 / 10000000000) - 1 / 16777216 \<le> y1" "y1 \<le> (511 / 512) * (10029240884 / 10000000000) + 1 / 16777216"
    by blast
  have y1_b: "10007227158 / 10000000000 \<le> y1" "y1 \<le> 10009653119 / 10000000000" using y1(2,3) by simp_all
  have "\<exists>z. ieee_mul round32 (Num y1) (Num y1) = Num z \<and>
      (10007227158 / 10000000000) * (10007227158 / 10000000000) - 1 / 16777216 \<le> z \<and> z \<le> (10009653119 / 10000000000) * (10009653119 / 10000000000) + 1 / 16777216"
    using y1_b y1_b by (intro mul_bounds) simp_all
  then obtain t1 where t1: "ieee_mul round32 (Num y1) (Num y1) = Num t1"
    "(10007227158 / 10000000000) * (10007227158 / 10000000000) - 1 / 16777216 \<le> t1" "t1 \<le> (10009653119 / 10000000000) * (10009653119 / 10000000000) + 1 / 16777216"
    by blast
  have t1_b: "10014458943 / 10000000000 \<le> t1" "t1 \<le> 10019316153 / 10000000000" using t1(2,3) by simp_all
  have "\<exists>z. ieee_mul round32 (Num s) (Num t1) = Num z \<and>
      1 * (10014458943 / 10000000000) - 1 / 16777216 \<le> z \<and> z \<le> (2049 / 2048) * (10019316153 / 10000000000) + 1 / 16777216"
    using sA t1_b by (intro mul_bounds) simp_all
  then obtain a2 where a2: "ieee_mul round32 (Num s) (Num t1) = Num a2"
    "1 * (10014458943 / 10000000000) - 1 / 16777216 \<le> a2" "a2 \<le> (2049 / 2048) * (10019316153 / 10000000000) + 1 / 16777216"
    by blast
  have a2_b: "10014458346 / 10000000000 \<le> a2" "a2 \<le> 10024208994 / 10000000000" using a2(2,3) by simp_all
  have "\<exists>z. ieee_rsqrts (Num a2) (Num y1) = Num z \<and>
      (3 - (10024208994 / 10000000000) * (10009653119 / 10000000000)) / 2 - 1 / 16777216 \<le> z \<and> z \<le> (3 - (10014458346 / 10000000000) * (10007227158 / 10000000000)) / 2 + 1 / 16777216"
    using a2_b y1_b by (intro rsqrts_bounds) simp_all
  then obtain r2 where r2: "ieee_rsqrts (Num a2) (Num y1) = Num r2"
    "(3 - (10024208994 / 10000000000) * (10009653119 / 10000000000)) / 2 - 1 / 16777216 \<le> r2" "r2 \<le> (3 - (10014458346 / 10000000000) * (10007227158 / 10000000000)) / 2 + 1 / 16777216"
    by blast
  have r2_b: "9983056662 / 10000000000 \<le> r2" "r2 \<le> 9989152620 / 10000000000" using r2(2,3) by simp_all
  have "\<exists>z. ieee_mul round32 (Num y1) (Num r2) = Num z \<and>
      (10007227158 / 10000000000) * (9983056662 / 10000000000) - 1 / 16777216 \<le> z \<and> z \<le> (10009653119 / 10000000000) * (9989152620 / 10000000000) + 1 / 16777216"
    using y1_b r2_b by (intro mul_bounds) simp_all
  then obtain y2 where y2: "ieee_mul round32 (Num y1) (Num r2) = Num y2"
    "(10007227158 / 10000000000) * (9983056662 / 10000000000) - 1 / 16777216 \<le> y2" "y2 \<le> (10009653119 / 10000000000) * (9989152620 / 10000000000) + 1 / 16777216"
    by blast
  have y2_b: "9990270978 / 10000000000 \<le> y2" "y2 \<le> 9998795864 / 10000000000" using y2(2,3) by simp_all

  have "norm_neon_inv arm_fpu (Num s) = Num y2"
    by (simp only: norm_neon_inv_arm Let_def rsqrte_above_one[OF sA] t0(1) a1(1) r1(1) y1(1)
        t1(1) a2(1) r2(1) y2(1))
  moreover have "1023 / 1024 \<le> y2" "y2 \<le> 1025 / 1024" using y2_b by simp_all
  ultimately show ?thesis by blast
qed

lemma inv_below_one:
  fixes s :: rat
  assumes sB: "2047 / 2048 \<le> s" "s \<le> 1" and lt: "s < 1"
  shows "\<exists>c. norm_neon_inv arm_fpu (Num s) = Num c \<and> 1023 / 1024 \<le> c \<and> c \<le> 1025 / 1024"
proof -
  have "\<exists>z. ieee_mul round32 (Num 1) (Num 1) = Num z \<and>
      1 * 1 - 1 / 16777216 \<le> z \<and> z \<le> 1 * 1 + 1 / 16777216"
    by (intro mul_bounds) simp_all
  then obtain t0 where t0: "ieee_mul round32 (Num 1) (Num 1) = Num t0"
    "1 * 1 - 1 / 16777216 \<le> t0" "t0 \<le> 1 * 1 + 1 / 16777216"
    by blast
  have t0_b: "9999999403 / 10000000000 \<le> t0" "t0 \<le> 10000000597 / 10000000000" using t0(2,3) by simp_all
  have "\<exists>z. ieee_mul round32 (Num s) (Num t0) = Num z \<and>
      (2047 / 2048) * (9999999403 / 10000000000) - 1 / 16777216 \<le> z \<and> z \<le> 1 * (10000000597 / 10000000000) + 1 / 16777216"
    using sB t0_b by (intro mul_bounds) simp_all
  then obtain a1 where a1: "ieee_mul round32 (Num s) (Num t0) = Num a1"
    "(2047 / 2048) * (9999999403 / 10000000000) - 1 / 16777216 \<le> a1" "a1 \<le> 1 * (10000000597 / 10000000000) + 1 / 16777216"
    by blast
  have a1_b: "9995115994 / 10000000000 \<le> a1" "a1 \<le> 10000001194 / 10000000000" using a1(2,3) by simp_all
  have "\<exists>z. ieee_rsqrts (Num a1) (Num 1) = Num z \<and>
      (3 - (10000001194 / 10000000000) * 1) / 2 - 1 / 16777216 \<le> z \<and> z \<le> (3 - (9995115994 / 10000000000) * 1) / 2 + 1 / 16777216"
    using a1_b by (intro rsqrts_bounds) simp_all
  then obtain r1 where r1: "ieee_rsqrts (Num a1) (Num 1) = Num r1"
    "(3 - (10000001194 / 10000000000) * 1) / 2 - 1 / 16777216 \<le> r1" "r1 \<le> (3 - (9995115994 / 10000000000) * 1) / 2 + 1 / 16777216"
    by blast
  have r1_b: "9999998806 / 10000000000 \<le> r1" "r1 \<le> 10002442600 / 10000000000" using r1(2,3) by simp_all
  have "\<exists>z. ieee_mul round32 (Num 1) (Num r1) = Num z \<and>
      1 * (9999998806 / 10000000000) - 1 / 16777216 \<le> z \<and> z \<le> 1 * (10002442600 / 10000000000) + 1 / 16777216"
    using r1_b by (intro mul_bounds) simp_all
  then obtain y1 where y1: "ieee_mul round32 (Num 1) (Num r1) = Num y1"
    "1 * (9999998806 / 10000000000) - 1 / 16777216 \<le> y1" "y1 \<le> 1 * (10002442600 / 10000000000) + 1 / 16777216"
    by blast
  have y1_b: "9999998209 / 10000000000 \<le> y1" "y1 \<le> 10002443197 / 10000000000" using y1(2,3) by simp_all
  have "\<exists>z. ieee_mul round32 (Num y1) (Num y1) = Num z \<and>
      (9999998209 / 10000000000) * (9999998209 / 10000000000) - 1 / 16777216 \<le> z \<and> z \<le> (10002443197 / 10000000000) * (10002443197 / 10000000000) + 1 / 16777216"
    using y1_b y1_b by (intro mul_bounds) simp_all
  then obtain t1 where t1: "ieee_mul round32 (Num y1) (Num y1) = Num t1"
    "(9999998209 / 10000000000) * (9999998209 / 10000000000) - 1 / 16777216 \<le> t1" "t1 \<le> (10002443197 / 10000000000) * (10002443197 / 10000000000) + 1 / 16777216"
    by blast
  have t1_b: "9999995821 / 10000000000 \<le> t1" "t1 \<le> 10004887587 / 10000000000" using t1(2,3) by simp_all
  have "\<exists>z. ieee_mul round32 (Num s) (Num t1) = Num z \<and>
      (2047 / 2048) * (9999995821 / 10000000000) - 1 / 16777216 \<le> z \<and> z \<le> 1 * (10004887587 / 10000000000) + 1 / 16777216"
    using sB t1_b by (intro mul_bounds) simp_all
  then obtain a2 where a2: "ieee_mul round32 (Num s) (Num t1) = Num a2"
    "(2047 / 2048) * (9999995821 / 10000000000) - 1 / 16777216 \<le> a2" "a2 \<le> 1 * (10004887587 / 10000000000) + 1 / 16777216"
    by blast
  have a2_b: "9995112414 / 10000000000 \<le> a2" "a2 \<le> 10004888184 / 10000000000" using a2(2,3) by simp_all
  have "\<exists>z. ieee_rsqrts (Num a2) (Num y1) = Num z \<and>
      (3 - (10004888184 / 10000000000) * (10002443197 / 10000000000)) / 2 - 1 / 16777216 \<le> z \<and> z \<le> (3 - (9995112414 / 10000000000) * (9999998209 / 10000000000)) / 2 + 1 / 16777216"
    using a2_b y1_b by (intro rsqrts_bounds) simp_all
  then obtain r2 where r2: "ieee_rsqrts (Num a2) (Num y1) = Num r2"
    "(3 - (10004888184 / 10000000000) * (10002443197 / 10000000000)) / 2 - 1 / 16777216 \<le> r2" "r2 \<le> (3 - (9995112414 / 10000000000) * (9999998209 / 10000000000)) / 2 + 1 / 16777216"
    by blast
  have r2_b: "9996333116 / 10000000000 \<le> r2" "r2 \<le> 10002445285 / 10000000000" using r2(2,3) by simp_all
  have "\<exists>z. ieee_mul round32 (Num y1) (Num r2) = Num z \<and>
      (9999998209 / 10000000000) * (9996333116 / 10000000000) - 1 / 16777216 \<le> z \<and> z \<le> (10002443197 / 10000000000) * (10002445285 / 10000000000) + 1 / 16777216"
    using y1_b r2_b by (intro mul_bounds) simp_all
  then obtain y2 where y2: "ieee_mul round32 (Num y1) (Num r2) = Num y2"
    "(9999998209 / 10000000000) * (9996333116 / 10000000000) - 1 / 16777216 \<le> y2" "y2 \<le> (10002443197 / 10000000000) * (10002445285 / 10000000000) + 1 / 16777216"
    by blast
  have y2_b: "9996330729 / 10000000000 \<le> y2" "y2 \<le> 10004889676 / 10000000000" using y2(2,3) by simp_all

  have "norm_neon_inv arm_fpu (Num s) = Num y2"
    by (simp only: norm_neon_inv_arm Let_def rsqrte_below_one[OF sB(1) lt] t0(1) a1(1) r1(1)
        y1(1) t1(1) a2(1) r2(1) y2(1))
  moreover have "1023 / 1024 \<le> y2" "y2 \<le> 1025 / 1024" using y2_b by simp_all
  ultimately show ?thesis by blast
qed

lemma inv_near_one:
  fixes s :: rat
  assumes "\<bar>s - 1\<bar> \<le> 1 / 2048"
  shows "\<exists>c. norm_neon_inv arm_fpu (Num s) = Num c \<and> \<bar>c - 1\<bar> \<le> 1 / 1024"
proof (cases "1 \<le> s")
  case True
  have "s \<le> 2049 / 2048" using assms by linarith
  from inv_above_one[OF True this] obtain c where c: "norm_neon_inv arm_fpu (Num s) = Num c"
    "1023 / 1024 \<le> c" "c \<le> 1025 / 1024" by blast
  have "\<bar>c - 1\<bar> \<le> 1 / 1024" using c(2,3) by linarith
  then show ?thesis using c(1) by blast
next
  case False
  have "2047 / 2048 \<le> s" "s \<le> 1" "s < 1" using assms False by linarith+
  from inv_below_one[OF this] obtain c where c: "norm_neon_inv arm_fpu (Num s) = Num c"
    "1023 / 1024 \<le> c" "c \<le> 1025 / 1024" by blast
  have "\<bar>c - 1\<bar> \<le> 1 / 1024" using c(2,3) by linarith
  then show ?thesis using c(1) by blast
qed

lemma scaled_close:
  assumes x: "fin_val x = Some a" and a: "\<bar>a\<bar> \<le> 1" and c: "\<bar>c - 1\<bar> \<le> 1 / 1024"
  shows "close_to (1 / 1000) x (ieee_mul round32 x (Num c))"
proof -
  have cpos: "0 < c" and cle: "c \<le> 1025 / 1024" using c by linarith+
  have ac: "\<bar>a * c - a\<bar> \<le> 1 / 1024"
  proof -
    have "a * c - a = a * (c - 1)" by (simp add: algebra_simps)
    then have "\<bar>a * c - a\<bar> = \<bar>a\<bar> * \<bar>c - 1\<bar>" by (simp add: abs_mult)
    also have "\<dots> \<le> 1 * (1 / 1024)" using a c by (intro mult_mono) simp_all
    finally show ?thesis by simp
  qed
  show ?thesis
  proof (cases x)
    case (Num a')
    then have xa: "x = Num a" using x by simp
    show ?thesis
    proof (cases "a * c = 0")
      case True
      then have "a = 0" using cpos by simp
      then show ?thesis using xa cpos by (simp add: close_to_def)
    next
      case False
      have "\<bar>a * c\<bar> < 2" using ac a by linarith
      from round32_near[OF this] obtain y where y: "fin_val (round32 (a * c)) = Some y"
        and n: "\<bar>y - a * c\<bar> \<le> 1 / 16777216" by blast
      have "\<bar>y - a\<bar> \<le> 1 / 1000" using n ac by linarith
      then show ?thesis using xa False y by (simp add: close_to_def)
    qed
  next
    case NZero
    then have "a = 0" using x by simp
    then show ?thesis using NZero cpos by (simp add: close_to_def)
  qed (use x in simp_all)
qed

lemma unit_embedding_kept:
  assumes "unit_embedding ws"
  shows "list_all2 (close_to (1 / 1000)) (map decode32 ws)
           (norm_neon arm_fpu (map decode32 ws) (length ws))"
proof -
  let ?v = "map decode32 ws"
  from assms obtain s where s: "fin_val (norm_neon_sum arm_fpu ?v (length ws)) = Some s"
    and s1: "\<bar>s - 1\<bar> \<le> 1 / 2048"
    by (auto simp: unit_embedding_def split: option.splits)
  have "norm_neon_sum arm_fpu ?v (length ws) \<noteq> NZero" using s s1 by auto
  then have sum: "norm_neon_sum arm_fpu ?v (length ws) = Num s"
    using s by (cases "norm_neon_sum arm_fpu ?v (length ws)") simp_all
  from inv_near_one[OF s1] obtain c where c: "norm_neon_inv arm_fpu (Num s) = Num c"
    and c1: "\<bar>c - 1\<bar> \<le> 1 / 1024" by blast
  have n: "norm_neon arm_fpu ?v (length ws) = map (\<lambda>x. ieee_mul round32 x (Num c)) ?v"
    using norm_neon_map[of ?v "length ws" arm_fpu] sum c by (simp add: arm_fpu_def)
  have "\<forall>x\<in>set ?v. close_to (1 / 1000) x (ieee_mul round32 x (Num c))"
  proof
    fix x assume "x \<in> set ?v"
    then obtain w where w: "w \<in> set ws" and xw: "x = decode32 w" by auto
    from assms w obtain a where "fin_val (decode32 w) = Some a" "\<bar>a\<bar> \<le> 1"
      by (auto simp: unit_embedding_def list_all_iff split: option.splits)
    then show "close_to (1 / 1000) x (ieee_mul round32 x (Num c))"
      using xw c1 by (intro scaled_close) simp_all
  qed
  then show ?thesis unfolding n by (simp add: list_all2_map1 list_all2_map2 list_all2_same)
qed

section \<open>The binary32 encoding\<close>

text \<open>
  A value that an operation of the unit returns is read back from its binary32 word as
  it is: the sign, the exponent field and the fraction field of the word do not
  overlap, and a rounded number has at most 24 significant bits at an exponent from
  -126 to 127.
\<close>

lemma bit_take_bitD:
  fixes w :: "32 word"
  assumes "take_bit n w = w"
  shows "\<forall>k. bit w k \<longrightarrow> k < n"
proof (intro allI impI)
  fix k assume "bit w k"
  then have "bit (take_bit n w) k" using assms by simp
  then show "k < n" by (simp add: bit_take_bit_iff)
qed

lemma bit_sign: "bit (2147483648 :: 32 word) k = (k = 31)"
proof -
  have h: "(2147483648 :: 32 word) = 2 ^ 31" by simp
  have "bit ((2 :: 32 word) ^ 31) k = (k = 31)"
    by (subst bit_exp_iff) auto
  then show ?thesis by (simp only: h)
qed

lemma bit_256: "bit (256 :: 32 word) k = (k = 8)"
proof -
  have h: "(256 :: 32 word) = 2 ^ 8" by simp
  have "bit ((2 :: 32 word) ^ 8) k = (k = 8)"
    by (subst bit_exp_iff) auto
  then show ?thesis by (simp only: h)
qed

lemma bit_256_int: "bit (256 :: int) k = (k = 8)"
proof -
  have h: "(256 :: int) = 2 ^ 8" by simp
  have "bit ((2 :: int) ^ 8) k = (k = 8)"
    by (subst bit_exp_iff) auto
  then show ?thesis by (simp only: h)
qed

lemma bit_256_nat: "bit (256 :: nat) k = (k = 8)"
proof -
  have h: "(256 :: nat) = 2 ^ 8" by simp
  have "bit ((2 :: nat) ^ 8) k = (k = 8)"
    by (subst bit_exp_iff) auto
  then show ?thesis by (simp only: h)
qed

lemma bit_sign_int: "bit (2147483648 :: int) k = (k = 31)"
proof -
  have h: "(2147483648 :: int) = 2 ^ 31" by simp
  have "bit ((2 :: int) ^ 31) k = (k = 31)"
    by (subst bit_exp_iff) auto
  then show ?thesis by (simp only: h)
qed

lemma bit_sign_nat: "bit (2147483648 :: nat) k = (k = 31)"
proof -
  have h: "(2147483648 :: nat) = 2 ^ 31" by simp
  have "bit ((2 :: nat) ^ 31) k = (k = 31)"
    by (subst bit_exp_iff) auto
  then show ?thesis by (simp only: h)
qed

lemma binary32_fields:
  fixes sg E M :: "32 word"
  assumes sg: "sg = 0 \<or> sg = 2147483648" and E: "take_bit 8 E = E" and M: "take_bit 23 M = M"
  shows "drop_bit 23 (sg OR push_bit 23 E OR M) AND 255 = E"
    and "(sg OR push_bit 23 E OR M) AND 8388607 = M"
    and "bit (sg OR push_bit 23 E OR M) 31 = (sg \<noteq> 0)"
proof -
  have m8: "(255 :: 32 word) = mask 8" and m23: "(8388607 :: 32 word) = mask 23"
    by (simp_all add: mask_eq_exp_minus_1)
  note e = bit_take_bitD[OF E] and m = bit_take_bitD[OF M]
  show "drop_bit 23 (sg OR push_bit 23 E OR M) AND 255 = E"
    unfolding m8 using sg
  proof
    assume "sg = 0"
    then show "drop_bit 23 (sg OR push_bit 23 E OR M) AND mask 8 = E"
      using e m by (intro bit_eqI) (auto simp: bit_simps)
  next
    assume s: "sg = 2147483648"
    have "drop_bit 23 (2147483648 OR push_bit 23 E OR M) AND mask 8 = E"
      using e m by (intro bit_eqI) (auto simp: bit_simps bit_sign bit_256 bit_256_int bit_256_nat)
    then show "drop_bit 23 (sg OR push_bit 23 E OR M) AND mask 8 = E"
      by (simp only: s)
  qed
  show "(sg OR push_bit 23 E OR M) AND 8388607 = M"
    unfolding m23 using sg
  proof
    assume "sg = 0"
    then show "(sg OR push_bit 23 E OR M) AND mask 23 = M"
      using e m by (intro bit_eqI) (auto simp: bit_simps)
  next
    assume s: "sg = 2147483648"
    have "(2147483648 OR push_bit 23 E OR M) AND mask 23 = M"
      using e m by (intro bit_eqI) (auto simp: bit_simps bit_sign bit_sign_int bit_sign_nat)
    then show "(sg OR push_bit 23 E OR M) AND mask 23 = M"
      by (simp only: s)
  qed
  show "bit (sg OR push_bit 23 E OR M) 31 = (sg \<noteq> 0)"
    using sg
  proof
    assume "sg = 0"
    then show ?thesis using e m by (fastforce simp: bit_simps)
  next
    assume s: "sg = 2147483648"
    have "bit (2147483648 OR push_bit 23 E OR M :: 32 word) 31"
      by (simp add: bit_simps bit_sign bit_sign_int bit_sign_nat)
    then show ?thesis by (simp add: s)
  qed
qed

lemma pow2_powi: "pow2 e = 2 powi e"
  by (simp add: pow2_def power_int_def field_simps)

lemma pow2_add: "pow2 (i + j) = pow2 i * pow2 j"
  by (simp add: pow2_powi power_int_add)

lemma pow2_pos: "0 < pow2 e"
  by (simp add: pow2_powi)

lemma pow2_mono: "i \<le> j \<Longrightarrow> pow2 i \<le> pow2 j"
  by (simp add: pow2_powi power_int_increasing)

lemma pow2_less_cancel: "pow2 i < pow2 j \<Longrightarrow> i < j"
  using pow2_mono[of j i] by (cases "i < j") auto

lemma pow2_Suc: "pow2 (e + 1) = 2 * pow2 e"
  by (simp add: pow2_powi power_int_add)

lemma int_less_pow2:
  fixes m :: int
  assumes "of_int m < pow2 k" and "0 \<le> k"
  shows "(of_int m :: rat) + 1 \<le> pow2 k"
proof -
  have e: "pow2 k = of_int (2 ^ nat k)" using assms(2) by (simp add: pow2_def)
  then have "(of_int m :: rat) < of_int (2 ^ nat k)" using assms(1) by simp
  then have "m < 2 ^ nat k" by (simp only: of_int_less_iff)
  then have "m + 1 \<le> 2 ^ nat k" by simp
  then have "(of_int (m + 1) :: rat) \<le> of_int (2 ^ nat k)" by (simp only: of_int_le_iff)
  then show ?thesis using e by simp
qed

lemma bitlen_bounds:
  "0 < n \<Longrightarrow> pow2 (bitlen n - 1) \<le> of_int n \<and> of_int n < pow2 (bitlen n)"
proof (induction n rule: bitlen.induct)
  case (1 n)
  show ?case
  proof (cases "n = 1")
    case True
    then show ?thesis by (simp add: bitlen.simps pow2_def)
  next
    case False
    then have h: "0 < n div 2" using "1.prems" by simp
    have nn: "\<not> n \<le> 0" using "1.prems" by simp
    from "1.IH"[OF nn h]
    have lo: "pow2 (bitlen (n div 2) - 1) \<le> of_int (n div 2)"
      and hi: "of_int (n div 2) < pow2 (bitlen (n div 2))" by simp_all
    have b: "bitlen n = bitlen (n div 2) + 1" using nn by (subst bitlen.simps) simp
    have p: "0 \<le> bitlen (n div 2)" by (rule bitlen_nonneg)
    have "(of_int (n div 2) :: rat) + 1 \<le> pow2 (bitlen (n div 2))"
      using int_less_pow2[OF hi p] .
    then have "2 * (of_int (n div 2) :: rat) + 2 \<le> 2 * pow2 (bitlen (n div 2))" by simp
    moreover have "(of_int n :: rat) < 2 * of_int (n div 2) + 2"
    proof -
      have "n < 2 * (n div 2) + 2" by presburger
      then show ?thesis by (simp flip: of_int_less_iff)
    qed
    moreover have "2 * (of_int (n div 2) :: rat) \<le> of_int n"
    proof -
      have "2 * (n div 2) \<le> n" by presburger
      then show ?thesis by (simp flip: of_int_le_iff)
    qed
    moreover have "pow2 (bitlen n - 1) = 2 * pow2 (bitlen (n div 2) - 1)"
      using pow2_Suc[of "bitlen (n div 2) - 1"] b by simp
    moreover have "pow2 (bitlen n) = 2 * pow2 (bitlen (n div 2))"
      using pow2_Suc[of "bitlen (n div 2)"] b by simp
    ultimately show ?thesis using lo by linarith
  qed
qed

lemma ilog2_bounds:
  assumes "x \<noteq> 0"
  shows "pow2 (ilog2 x) \<le> \<bar>x\<bar> \<and> \<bar>x\<bar> < pow2 (ilog2 x + 1)"
proof (cases "1 \<le> \<bar>x\<bar>")
  case True
  let ?n = "\<lfloor>\<bar>x\<bar>\<rfloor>"
  have n: "0 < ?n" using True by simp
  have e: "ilog2 x = bitlen ?n - 1" using True by (simp add: ilog2_def)
  from bitlen_bounds[OF n] have lo: "pow2 (bitlen ?n - 1) \<le> of_int ?n"
    and hi: "of_int ?n < pow2 (bitlen ?n)" by simp_all
  have p: "0 \<le> bitlen ?n" by (rule bitlen_nonneg)
  have up: "(of_int ?n :: rat) + 1 \<le> pow2 (bitlen ?n)"
    using int_less_pow2[OF hi p] .
  have f: "of_int ?n \<le> \<bar>x\<bar>" "\<bar>x\<bar> < of_int ?n + 1" by linarith+
  have e1: "ilog2 x + 1 = bitlen ?n" using e by simp
  have "pow2 (ilog2 x) \<le> \<bar>x\<bar>" unfolding e using lo f(1) by linarith
  moreover have "\<bar>x\<bar> < pow2 (ilog2 x + 1)" unfolding e1 using up f(2) by linarith
  ultimately show ?thesis by blast
next
  case False
  let ?c = "\<lceil>1 / \<bar>x\<bar>\<rceil>"
  let ?k = "bitlen (?c - 1)"
  have ax: "0 < \<bar>x\<bar>" "\<bar>x\<bar> < 1" using assms False by simp_all
  have inv: "1 < 1 / \<bar>x\<bar>" using ax by (simp add: field_simps)
  have c: "1 / \<bar>x\<bar> \<le> of_int ?c" "of_int ?c - 1 < 1 / \<bar>x\<bar>" by linarith+
  have c2: "0 < ?c - 1" using inv c(1) by linarith
  have e: "ilog2 x = - ?k" using False by (simp add: ilog2_def)
  from bitlen_bounds[OF c2] have lo: "pow2 (?k - 1) \<le> of_int (?c - 1)"
    and hi: "of_int (?c - 1) < pow2 ?k" by simp_all
  have p: "0 \<le> ?k" by (rule bitlen_nonneg)
  have oc: "(of_int (?c - 1) :: rat) = of_int ?c - 1" by simp
  have "(of_int (?c - 1) :: rat) + 1 \<le> pow2 ?k"
    using int_less_pow2[OF hi p] .
  then have up: "1 / \<bar>x\<bar> \<le> pow2 ?k" using c(1) oc by linarith
  have dn: "pow2 (?k - 1) < 1 / \<bar>x\<bar>" using lo c(2) oc by linarith
  have m: "pow2 (- ?k) * pow2 ?k = 1" "pow2 (- ?k + 1) * pow2 (?k - 1) = 1"
    using pow2_add[of "- ?k" ?k] pow2_add[of "- ?k + 1" "?k - 1"] by (simp_all add: pow2_def)
  have "pow2 (- ?k) \<le> \<bar>x\<bar>"
  proof -
    have "pow2 (- ?k) * (1 / \<bar>x\<bar>) \<le> pow2 (- ?k) * pow2 ?k"
      using up pow2_pos[of "- ?k"] by (intro mult_left_mono) simp_all
    then have "pow2 (- ?k) / \<bar>x\<bar> \<le> 1" using m(1) by simp
    then show ?thesis using ax by (simp add: field_simps)
  qed
  moreover have "\<bar>x\<bar> < pow2 (- ?k + 1)"
  proof -
    have "pow2 (- ?k + 1) * pow2 (?k - 1) < pow2 (- ?k + 1) * (1 / \<bar>x\<bar>)"
      using dn pow2_pos[of "- ?k + 1"] by (intro mult_strict_left_mono) simp_all
    then have "1 < pow2 (- ?k + 1) / \<bar>x\<bar>" using m(2) by simp
    then show ?thesis using ax by (simp add: field_simps)
  qed
  ultimately show ?thesis using e by simp
qed

lemma ilog2_unique:
  assumes "pow2 k \<le> \<bar>y\<bar>" "\<bar>y\<bar> < pow2 (k + 1)"
  shows "ilog2 y = k"
proof -
  have "y \<noteq> 0" using assms(1) pow2_pos[of k] by auto
  from ilog2_bounds[OF this] have b: "pow2 (ilog2 y) \<le> \<bar>y\<bar>" "\<bar>y\<bar> < pow2 (ilog2 y + 1)"
    by simp_all
  have "pow2 (ilog2 y) < pow2 (k + 1)" using b(1) assms(2) by linarith
  then have 1: "ilog2 y < k + 1" by (rule pow2_less_cancel)
  have "pow2 k < pow2 (ilog2 y + 1)" using b(2) assms(1) by linarith
  then have 2: "k < ilog2 y + 1" by (rule pow2_less_cancel)
  show ?thesis using 1 2 by simp
qed

lemma round_even_le: "m \<le> of_int K \<Longrightarrow> round_even m \<le> K"
proof -
  assume a: "m \<le> of_int K"
  have f: "of_int \<lfloor>m\<rfloor> \<le> m" "m < of_int \<lfloor>m\<rfloor> + 1" by linarith+
  have "\<lfloor>m\<rfloor> \<le> K" using a by (simp add: floor_le_iff) 
  moreover have "\<lfloor>m\<rfloor> + 1 \<le> K" if "0 < m - of_int \<lfloor>m\<rfloor>"
  proof -
    have "of_int \<lfloor>m\<rfloor> < (of_int K :: rat)" using that a by linarith
    then show ?thesis by simp
  qed
  ultimately show ?thesis
    unfolding round_even_def Let_def by auto
qed

lemma round_even_ge: "of_int K \<le> m \<Longrightarrow> K \<le> round_even m"
proof -
  assume a: "of_int K \<le> m"
  have "K \<le> \<lfloor>m\<rfloor>" using a by (simp add: le_floor_iff)
  then show ?thesis unfolding round_even_def Let_def by auto
qed

lemma take_bit_word_of_int_self:
  fixes k :: int
  assumes "0 \<le> k" "k < 2 ^ n"
  shows "take_bit n (word_of_int k :: 32 word) = word_of_int k"
proof -
  have t: "take_bit n k = k" using assms by (rule take_bit_int_eq_self)
  have h: "\<forall>j. bit k j \<longrightarrow> j < n"
  proof (intro allI impI)
    fix j assume "bit k j"
    then have "bit (take_bit n k) j" using t by simp
    then show "j < n" by (simp add: bit_take_bit_iff)
  qed
  show ?thesis using h by (intro bit_eqI) (auto simp: bit_simps)
qed

lemma W2a: "0 \<le> k \<Longrightarrow> k < 8388608 \<Longrightarrow> take_bit 23 (word_of_int k :: 32 word) = word_of_int k"
  using take_bit_word_of_int_self[of k 23] by simp
lemma W2b: "0 \<le> k \<Longrightarrow> k < 256 \<Longrightarrow> take_bit 8 (word_of_int k :: 32 word) = word_of_int k"
  using take_bit_word_of_int_self[of k 8] by simp


lemma uint_word_of_int_small:
  "0 \<le> k \<Longrightarrow> k < 4294967296 \<Longrightarrow> uint (word_of_int k :: 32 word) = k"
  by (simp add: uint_word_of_int take_bit_int_eq_self)

lemma pow2_inverse: "pow2 (- e) * pow2 e = 1"
  using pow2_add[of "- e" e] by (simp add: pow2_def)

lemma decode_encode_float:
  fixes y :: rat and a ex :: int
  assumes y: "\<bar>y\<bar> = of_int a * pow2 (ex - 23)" and a: "0 < a" "a < 16777216"
    and ex: "- 126 \<le> ex" and sub: "a < 8388608 \<longrightarrow> ex = - 126" and fin: "\<bar>y\<bar> < pow2 128"
  shows "decode32 (encode32 (Num y)) = Num y"
proof -
  define sg :: "32 word" where "sg = (if y < 0 then 2147483648 else 0)"
  have up: "0 < pow2 (ex - 23)" by (rule pow2_pos)
  have "0 < \<bar>y\<bar>" unfolding y using a(1) up by simp
  then have y0: "y \<noteq> 0" by simp
  have sgc: "sg = 0 \<or> sg = 2147483648" by (simp add: sg_def)
  have sgn: "(sg \<noteq> 0) = (y < 0)" by (simp add: sg_def)
  have signed: "(if y < 0 then - \<bar>y\<bar> else \<bar>y\<bar>) = y" by simp
  show ?thesis
  proof (cases "a < 8388608")
    case True
    then have ex126: "ex = - 126" using sub by simp
    have ay: "\<bar>y\<bar> = of_int a * pow2 (- 149)" using y ex126 by simp
    have p: "pow2 (- 126) = 8388608 * pow2 (- 149)"
      using pow2_add[of 23 "- 149"] by (simp add: pow2_def)
    have "of_int a * pow2 (- 149) < 8388608 * pow2 (- 149)"
      using True pow2_pos[of "- 149"] by (intro mult_strict_right_mono) simp_all
    then have "\<bar>y\<bar> < pow2 (- 126)" using ay p by simp
    moreover have "pow2 (ilog2 y) \<le> \<bar>y\<bar>" using ilog2_bounds[OF y0] by simp
    ultimately have "pow2 (ilog2 y) < pow2 (- 126)" by linarith
    then have il: "ilog2 y < - 126" by (rule pow2_less_cancel)
    have inv: "pow2 (- 149) * pow2 149 = 1" by (rule pow2_inverse)
    have "\<bar>y\<bar> * pow2 149 = of_int a * (pow2 (- 149) * pow2 149)"
      unfolding ay by (simp only: mult.assoc)
    then have "\<bar>y\<bar> * pow2 149 = of_int a" unfolding inv by simp
    then have fl: "\<lfloor>\<bar>y\<bar> * pow2 149\<rfloor> = a" by simp
    have w: "encode32 (Num y) = sg OR push_bit 23 0 OR word_of_int a"
      using y0 il fl by (simp add: encode32_def Let_def sg_def)
    have M: "take_bit 23 (word_of_int a :: 32 word) = word_of_int a"
      using take_bit_word_of_int_self[of a 23] a(1) True by simp
    have E: "take_bit 8 (0 :: 32 word) = 0" by simp
    note f = binary32_fields[OF sgc E M]
    have ua: "uint (word_of_int a :: 32 word) = a"
      using a by (intro uint_word_of_int_small) simp_all
    have "decode32 (sg OR push_bit 23 0 OR word_of_int a) = Num (if y < 0 then - \<bar>y\<bar> else \<bar>y\<bar>)"
      unfolding decode32_def Let_def f ua sgn using a(1) ay by simp
    then show ?thesis using w signed by simp
  next
    case False
    then have a23: "8388608 \<le> a" by simp
    have p1: "pow2 ex = 8388608 * pow2 (ex - 23)"
    proof -
      have "(23 :: int) + (ex - 23) = ex" by simp
      then have "pow2 ex = pow2 23 * pow2 (ex - 23)"
        using pow2_add[of 23 "ex - 23"] by simp
      moreover have "pow2 23 = 8388608" by (simp add: pow2_def)
      ultimately show ?thesis by simp
    qed
    have p2: "pow2 (ex + 1) = 16777216 * pow2 (ex - 23)"
    proof -
      have "(24 :: int) + (ex - 23) = ex + 1" by simp
      then have "pow2 (ex + 1) = pow2 24 * pow2 (ex - 23)"
        using pow2_add[of 24 "ex - 23"] by (simp add: add.commute)
      moreover have "pow2 24 = 16777216" by (simp add: pow2_def)
      ultimately show ?thesis by simp
    qed
    have "8388608 * pow2 (ex - 23) \<le> of_int a * pow2 (ex - 23)"
      using a23 up by (intro mult_right_mono) simp_all
    then have lo: "pow2 ex \<le> \<bar>y\<bar>" using p1 y by simp
    have "of_int a * pow2 (ex - 23) < 16777216 * pow2 (ex - 23)"
      using a(2) up by (intro mult_strict_right_mono) simp_all
    then have hi: "\<bar>y\<bar> < pow2 (ex + 1)" using p2 y by simp
    have il: "ilog2 y = ex" using lo hi by (rule ilog2_unique)
    have "pow2 ex < pow2 128" using lo fin by linarith
    then have ex128: "ex < 128" by (rule pow2_less_cancel)
    have inv: "pow2 (ex - 23) * pow2 (23 - ex) = 1" using pow2_inverse[of "23 - ex"] by simp
    have "\<bar>y\<bar> * pow2 (23 - ex) = of_int a * (pow2 (ex - 23) * pow2 (23 - ex))"
      unfolding y by (simp only: mult.assoc)
    then have "\<bar>y\<bar> * pow2 (23 - ex) = of_int a" unfolding inv by simp
    then have fl: "\<lfloor>\<bar>y\<bar> * pow2 (23 - ex)\<rfloor> = a" by simp
    have w: "encode32 (Num y) =
        sg OR push_bit 23 (word_of_int (ex + 127)) OR word_of_int (a - 8388608)"
      using y0 il fl ex by (simp add: encode32_def Let_def sg_def)
    have M: "take_bit 23 (word_of_int (a - 8388608) :: 32 word) = word_of_int (a - 8388608)"
      using take_bit_word_of_int_self[of "a - 8388608" 23] a23 a(2) by simp
    have E: "take_bit 8 (word_of_int (ex + 127) :: 32 word) = word_of_int (ex + 127)"
      using take_bit_word_of_int_self[of "ex + 127" 8] ex ex128 by simp
    note f = binary32_fields[OF sgc E M]
    have ue: "uint (word_of_int (ex + 127) :: 32 word) = ex + 127"
      using ex ex128 by (intro uint_word_of_int_small) simp_all
    have um: "uint (word_of_int (a - 8388608) :: 32 word) = a - 8388608"
      using a23 a(2) by (intro uint_word_of_int_small) simp_all
    have "decode32 (sg OR push_bit 23 (word_of_int (ex + 127)) OR word_of_int (a - 8388608)) =
        Num (if y < 0 then - \<bar>y\<bar> else \<bar>y\<bar>)"
      unfolding decode32_def Let_def f ue um sgn using ex ex128 y by simp
    then show ?thesis using w signed by simp
  qed
qed


lemma decode_encode_special:
  "decode32 (encode32 PInf) = PInf" "decode32 (encode32 NInf) = NInf"
  "decode32 (encode32 NZero) = NZero" "decode32 (encode32 (Num 0)) = Num 0"
  "decode32 (encode32 NaN) = NaN"
  by code_simp+

lemma decode_encode_round32: "decode32 (encode32 (round32 x)) = round32 x"
proof (cases "x = 0")
  case True
  then show ?thesis by (simp add: round32_zero decode_encode_special)
next
  case x0: False
  define ex where "ex = max (ilog2 x) (- 126)"
  define u where "u = pow2 (ex - 23)"
  define n where "n = round_even (x / u)"
  define y where "y = of_int n * u"
  have u: "0 < u" unfolding u_def by (rule pow2_pos)
  have ex: "- 126 \<le> ex" "ilog2 x \<le> ex" by (simp_all add: ex_def)
  have r: "round32 x =
      (if pow2 128 \<le> \<bar>y\<bar> then (if 0 < x then PInf else NInf)
       else if y = 0 \<and> x < 0 then NZero else Num y)"
    using x0
    by (simp add: round32_def fp_round_def Let_def ex_def[symmetric] u_def[symmetric]
        n_def[symmetric] y_def[symmetric])
  have p24: "pow2 (ex + 1) = 16777216 * u"
  proof -
    have "(24 :: int) + (ex - 23) = ex + 1" by simp
    then have "pow2 (ex + 1) = pow2 24 * pow2 (ex - 23)"
      using pow2_add[of 24 "ex - 23"] by (simp add: add.commute)
    moreover have "pow2 24 = 16777216" by (simp add: pow2_def)
    ultimately show ?thesis by (simp add: u_def)
  qed
  have p23: "pow2 ex = 8388608 * u"
  proof -
    have "(23 :: int) + (ex - 23) = ex" by simp
    then have "pow2 ex = pow2 23 * pow2 (ex - 23)"
      using pow2_add[of 23 "ex - 23"] by simp
    moreover have "pow2 23 = 8388608" by (simp add: pow2_def)
    ultimately show ?thesis by (simp add: u_def)
  qed
  have xu: "\<bar>x / u\<bar> = \<bar>x\<bar> / u" using u by simp
  have b: "pow2 (ilog2 x) \<le> \<bar>x\<bar>" "\<bar>x\<bar> < pow2 (ilog2 x + 1)"
    using ilog2_bounds[OF x0] by simp_all
  have "pow2 (ilog2 x + 1) \<le> pow2 (ex + 1)" using ex(2) by (intro pow2_mono) simp
  then have "\<bar>x\<bar> < 16777216 * u" using b(2) p24 by linarith
  then have "\<bar>x\<bar> / u < 16777216" using u by (simp add: field_simps)
  then have lt: "\<bar>x / u\<bar> < 16777216" unfolding xu .
  have A0: "x / u \<le> 16777216" "- 16777216 \<le> x / u" using lt by linarith+
  have A: "x / u \<le> of_int 16777216" "of_int (- 16777216) \<le> x / u"
    using A0 by simp_all
  have n_hi: "n \<le> 16777216" unfolding n_def using A(1) by (rule round_even_le)
  have n_lo: "- 16777216 \<le> n" unfolding n_def using A(2) by (rule round_even_ge)
  have B: "8388608 \<le> \<bar>n\<bar>" if "ex \<noteq> - 126"
  proof -
    have "ex = ilog2 x" using that by (simp add: ex_def max_def split: if_splits)
    then have "8388608 * u \<le> \<bar>x\<bar>" using b(1) p23 by simp
    then have "8388608 \<le> \<bar>x\<bar> / u" using u by (simp add: field_simps)
    then have ge: "8388608 \<le> \<bar>x / u\<bar>" unfolding xu .
    have c0: "8388608 \<le> x / u \<or> x / u \<le> - 8388608" using ge by linarith
    then have c: "of_int 8388608 \<le> x / u \<or> x / u \<le> of_int (- 8388608)"
      by simp
    then show ?thesis
    proof
      assume "of_int 8388608 \<le> x / u"
      then have "8388608 \<le> n" unfolding n_def by (rule round_even_ge)
      then show ?thesis by simp
    next
      assume "x / u \<le> of_int (- 8388608)"
      then have "n \<le> - 8388608" unfolding n_def by (rule round_even_le)
      then show ?thesis by simp
    qed
  qed
  show ?thesis
  proof (cases "pow2 128 \<le> \<bar>y\<bar>")
    case True
    then show ?thesis using r by (simp add: decode_encode_special)
  next
    case fin: False
    show ?thesis
    proof (cases "y = 0")
      case True
      then show ?thesis using r fin by (simp add: decode_encode_special)
    next
      case y0: False
      then have n0: "n \<noteq> 0" by (auto simp: y_def)
      have ay: "\<bar>y\<bar> = of_int \<bar>n\<bar> * u" using u by (simp add: y_def abs_mult)
      have fin': "\<bar>y\<bar> < pow2 128" using fin by simp
      have "decode32 (encode32 (Num y)) = Num y"
      proof (cases "\<bar>n\<bar> = 16777216")
        case True
        have "pow2 (ex + 1 - 23) = 2 * u" using pow2_Suc[of "ex - 23"] by (simp add: u_def)
        then have "\<bar>y\<bar> = of_int 8388608 * pow2 (ex + 1 - 23)" using ay True by simp
        then show ?thesis using ex(1) fin' by (intro decode_encode_float[of y 8388608 "ex + 1"]) simp_all
      next
        case False
        then have "\<bar>n\<bar> < 16777216" using n_hi n_lo by simp
        moreover have "0 < \<bar>n\<bar>" using n0 by simp
        moreover have "\<bar>n\<bar> < 8388608 \<longrightarrow> ex = - 126" using B by force
        ultimately show ?thesis using ay ex(1) fin'
          by (intro decode_encode_float[of y "\<bar>n\<bar>" ex]) (simp_all add: u_def)
      qed
      then show ?thesis using r fin y0 by simp
    qed
  qed
qed


lemma decode_encode_mul:
  "decode32 (encode32 (ieee_mul round32 a b)) = ieee_mul round32 a b"
  by (cases a; cases b) (auto simp: decode_encode_special decode_encode_round32)

lemma decode_encode_norm_neon:
  assumes "length v = d"
  shows "map decode32 (map encode32 (norm_neon arm_fpu v d)) = norm_neon arm_fpu v d"
proof -
  have "norm_neon arm_fpu v d =
      map (\<lambda>x. ieee_mul round32 x (norm_neon_inv arm_fpu (norm_neon_sum arm_fpu v d))) v"
    using norm_neon_map[OF assms, of arm_fpu] by (simp add: arm_fpu_def)
  then show ?thesis by (simp add: decode_encode_mul)
qed

section \<open>Loading a written file\<close>

lemma floats_at_words: "floats_at fp A p d = map (f_load fp) (words_at A p d)"
  by (simp add: floats_at_def words_at_def comp_def)

lemma words_at_written:
  "drop p A = encode_floats ws @ rest \<Longrightarrow> words_at A p (length ws) = ws"
  unfolding words_at_def by (rule words_at_drop)

lemma length_normalized [simp]: "length (normalized fp r) = length (s_emb r)"
  by (simp add: normalized_def norm_neon_map)

lemma length_encode_chunk:
  "length (encode_chunk r) =
     4 + length (s_id r) + 4 + length (s_parent r) + 4 + length (s_file r) + 4 +
     length (s_ext r) + 4 + 4 + 4 + length (s_text r) + 4 + 4 * length (s_emb r)"
  by (simp add: encode_chunk_def)

lemma length_encode_norm_rec [simp]:
  "length (encode_chunk (norm_rec fp r)) = length (encode_chunk r)"
  by (simp add: length_encode_chunk norm_rec_def)

lemma load_chunk_drop:
  assumes d: "drop p A = encode_chunk r @ rest" and wf: "wf_chunk r"
  shows "load_chunk fp A p =
           Inr (chunk_at p r, take p A @ encode_chunk (norm_rec fp r) @ rest,
                p + length (encode_chunk r))"
proof -
  let ?p1 = "p + 4 + length (s_id r)"
  let ?p2 = "?p1 + 4 + length (s_parent r)"
  let ?p3 = "?p2 + 4 + length (s_file r)"
  let ?p4 = "?p3 + 4 + length (s_ext r)"
  let ?p5 = "?p4 + 4"
  let ?p6 = "?p5 + 4"
  let ?p7 = "?p6 + 4 + length (s_text r)"
  let ?p8 = "?p7 + 4"
  let ?d = "length (s_emb r)"
  from wf have w: "length (s_id r) < 4294967296" "length (s_parent r) < 4294967296"
    "length (s_file r) < 4294967296" "length (s_ext r) < 4294967296"
    "length (s_text r) < 4294967296" "?d \<le> 4294967291"
    by (simp_all add: wf_chunk_def)
  have d0: "drop p A = LPStr (s_id r) @ (LPStr (s_parent r) @ LPStr (s_file r) @ LPStr (s_ext r) @
     u32_bytes (s_start_ln r) @ u32_bytes (s_end_ln r) @ LPStr (s_text r) @
     u32_bytes (word_of_nat ?d) @ encode_floats (s_emb r) @ rest)"
    using d by (simp add: encode_chunk_def)
  note r1 = read_str_drop[OF d0 w(1)]
  note r2 = read_str_drop[OF r1(2) w(2)]
  note r3 = read_str_drop[OF r2(2) w(3)]
  note r4 = read_str_drop[OF r3(2) w(4)]
  note r5 = u32_at_drop[OF r4(2)] read_u32_drop[OF r4(2)]
  note r6 = u32_at_drop[OF r5(3)] read_u32_drop[OF r5(3)]
  note r7 = read_str_drop[OF r6(3) w(5)]
  note r8 = u32_at_drop[OF r7(2)] read_u32_drop[OF r7(2)]
  define q where "q = ?p8"
  define n where "n = 4 + length (s_id r) + 4 + length (s_parent r) + 4 + length (s_file r) + 4 +
     length (s_ext r) + 4 + 4 + 4 + length (s_text r) + 4"
  define fields where "fields = LPStr (s_id r) @ LPStr (s_parent r) @ LPStr (s_file r) @
     LPStr (s_ext r) @ u32_bytes (s_start_ln r) @ u32_bytes (s_end_ln r) @ LPStr (s_text r) @
     u32_bytes (word_of_nat ?d)"
  have qn: "q = p + n" by (simp add: q_def n_def)
  have lf: "length fields = n" by (simp add: fields_def n_def)
  have d1: "drop p A = fields @ (encode_floats (s_emb r) @ rest)"
    using d0 by (simp add: fields_def)
  have dq: "drop q A = encode_floats (s_emb r) @ rest" using r8(3) by (simp only: q_def)
  have qle: "q \<le> length A" using r8(2) by (simp only: q_def)
  have dm: "unat (word_of_nat ?d :: 32 word) = ?d" using w(6) by (simp add: unat_length)
  have nowrap: "(4294967291 < (word_of_nat ?d :: 32 word)) = False"
    using w(6) dm by (simp add: word_less_nat_alt)
  have lenA: "(length A < q + 4 * ?d) = False"
  proof -
    have "length (drop q A) = 4 * ?d + length rest" using dq by simp
    then show ?thesis using qle by simp
  qed
  have fl: "floats_at fp A q ?d = map (f_load fp) (s_emb r)"
    by (simp only: floats_at_words words_at_written[OF dq])
  have tk: "take q A = take p A @ fields"
  proof -
    have "take (p + n) A = take p A @ take n (drop p A)" by (rule take_add)
    also have "take n (drop p A) = fields" using d1 lf by simp
    finally show ?thesis by (simp only: qn)
  qed
  have dr: "drop (q + 4 * ?d) A = rest"
  proof -
    have "drop (q + 4 * ?d) A = drop (4 * ?d) (drop q A)" by (simp add: add.commute)
    then show ?thesis using dq by simp
  qed
  have ln: "length (norm_neon fp (map (f_load fp) (s_emb r)) ?d) = ?d"
    by (simp add: norm_neon_map)
  have cc: "concat (map (\<lambda>x. u32_bytes (f_store fp x)) (norm_neon fp (map (f_load fp) (s_emb r)) ?d))
            = encode_floats (normalized fp r)"
    by (simp add: encode_floats_def normalized_def comp_def)
  have en: "encode_chunk (norm_rec fp r) = fields @ encode_floats (normalized fp r)"
    by (simp add: encode_chunk_def norm_rec_def fields_def)
  have wr: "write_floats fp A q (norm_neon fp (map (f_load fp) (s_emb r)) ?d) =
            take p A @ encode_chunk (norm_rec fp r) @ rest"
    unfolding write_floats_def ln cc dr tk en by simp
  have ch: "\<lparr>c_id = p + 4, c_parent = ?p1 + 4, c_file = ?p2 + 4, c_ext = ?p3 + 4,
             c_text = ?p6 + 4, c_start_ln = s_start_ln r, c_end_ln = s_end_ln r,
             c_dim = word_of_nat ?d, c_emb = q\<rparr> = chunk_at p r"
    by (simp add: chunk_at_def q_def)
  have pe: "q + 4 * ?d = p + length (encode_chunk r)"
    by (simp add: length_encode_chunk q_def)
  have lenA2: "(length A < p + length (encode_chunk r)) = False"
    using lenA by (simp only: pe)
  show ?thesis
    unfolding load_chunk_def
    by (simp only: r1(1) r2(1) r3(1) r4(1) r5(4) r6(4) r7(1) r8(4) sum.case prod.case
        dm nowrap lenA[unfolded q_def] fl[unfolded q_def] wr[unfolded q_def]
        ch[unfolded q_def] pe[unfolded q_def] lenA2 if_False)
qed


lemma views_drop:
  assumes d: "drop p A = encode_chunk r @ rest" and wf: "wf_chunk r"
  shows "bytes_at A (c_id (chunk_at p r)) (length (s_id r)) = s_id r \<and>
         bytes_at A (c_parent (chunk_at p r)) (length (s_parent r)) = s_parent r \<and>
         bytes_at A (c_file (chunk_at p r)) (length (s_file r)) = s_file r \<and>
         bytes_at A (c_ext (chunk_at p r)) (length (s_ext r)) = s_ext r \<and>
         bytes_at A (c_text (chunk_at p r)) (length (s_text r)) = s_text r \<and>
         words_at A (c_emb (chunk_at p r)) (length (s_emb r)) = s_emb r"
proof -
  from wf have w: "length (s_id r) < 4294967296" "length (s_parent r) < 4294967296"
    "length (s_file r) < 4294967296" "length (s_ext r) < 4294967296"
    "length (s_text r) < 4294967296"
    by (simp_all add: wf_chunk_def)
  have d0: "drop p A = LPStr (s_id r) @ (LPStr (s_parent r) @ LPStr (s_file r) @ LPStr (s_ext r) @
     u32_bytes (s_start_ln r) @ u32_bytes (s_end_ln r) @ LPStr (s_text r) @
     u32_bytes (word_of_nat (length (s_emb r))) @ encode_floats (s_emb r) @ rest)"
    using d by (simp add: encode_chunk_def)
  note r1 = read_str_drop[OF d0 w(1)]
  note r2 = read_str_drop[OF r1(2) w(2)]
  note r3 = read_str_drop[OF r2(2) w(3)]
  note r4 = read_str_drop[OF r3(2) w(4)]
  note r5 = u32_at_drop[OF r4(2)]
  note r6 = u32_at_drop[OF r5(3)]
  note r7 = read_str_drop[OF r6(3) w(5)]
  note r8 = u32_at_drop[OF r7(2)]
  note r9 = words_at_written[OF r8(3)]
  show ?thesis
    unfolding chunk_at_def Chunk.simps
    by (intro conjI) (fact r1(3) r2(3) r3(3) r4(3) r7(3) r9)+
qed

lemma wf_norm_rec: "wf_chunk (norm_rec fp r) = wf_chunk r"
  by (simp add: wf_chunk_def norm_rec_def)

lemma chunk_at_norm_rec: "chunk_at p (norm_rec fp r) = chunk_at p r"
  by (simp add: chunk_at_def norm_rec_def)

lemma load_loop_drop:
  "list_all wf_chunk rs \<Longrightarrow> drop p A = concat (map encode_chunk rs) @ rest \<Longrightarrow>
   p \<le> length A \<Longrightarrow> unat n = i + length rs \<Longrightarrow> i + length rs \<le> length cs \<Longrightarrow>
   load_loop fp n i (cs, A, p) =
     Inr (take i cs @ chunks_from p rs @ drop (i + length rs) cs,
          take p A @ concat (map (\<lambda>r. encode_chunk (norm_rec fp r)) rs) @ rest,
          p + length (concat (map encode_chunk rs)))"
proof (induction rs arbitrary: p A i cs)
  case Nil
  have a: "take p A @ rest = A"
    using Nil.prems(2) append_take_drop_id[of p A] by simp
  show ?case using Nil.prems(4) a by (subst load_loop.simps) simp
next
  case (Cons r rs)
  let ?c = "chunk_at p r"
  let ?A1 = "take p A @ encode_chunk (norm_rec fp r) @ (concat (map encode_chunk rs) @ rest)"
  let ?p1 = "p + length (encode_chunk r)"
  have wf: "wf_chunk r" "list_all wf_chunk rs" using Cons.prems(1) by simp_all
  have d: "drop p A = encode_chunk r @ (concat (map encode_chunk rs) @ rest)"
    using Cons.prems(2) by simp
  have lc: "load_chunk fp A p = Inr (?c, ?A1, ?p1)"
    by (rule load_chunk_drop[OF d wf(1)])
  have lt: "i < unat n" using Cons.prems(4) by simp
  have il: "i < length cs" using Cons.prems(5) by simp
  have lp: "length (take p A) = p" using Cons.prems(3) by simp
  have d1: "drop ?p1 ?A1 = concat (map encode_chunk rs) @ rest"
    using lp by simp
  have l1: "?p1 \<le> length ?A1" using lp by simp
  have t1: "take ?p1 ?A1 = take p A @ encode_chunk (norm_rec fp r)"
    using lp by simp
  have ih: "load_loop fp n (Suc i) (cs[i := ?c], ?A1, ?p1) =
     Inr (take (Suc i) (cs[i := ?c]) @ chunks_from ?p1 rs @ drop (Suc i + length rs) (cs[i := ?c]),
          take ?p1 ?A1 @ concat (map (\<lambda>r. encode_chunk (norm_rec fp r)) rs) @ rest,
          ?p1 + length (concat (map encode_chunk rs)))"
    using Cons.prems(4,5) by (intro Cons.IH[OF wf(2) d1 l1]) simp_all
  have c1: "take (Suc i) (cs[i := ?c]) = take i cs @ [?c]"
    using il by (simp add: take_Suc_conv_app_nth)
  have c2: "drop (Suc i + length rs) (cs[i := ?c]) = drop (i + length (r # rs)) cs"
    by simp
  have "load_loop fp n i (cs, A, p) = load_loop fp n (i + 1) (cs[i := ?c], ?A1, ?p1)"
    by (subst load_loop.simps) (simp only: lt lc if_True sum.case prod.case)
  also have "\<dots> =
     Inr ((take i cs @ [?c]) @ chunks_from ?p1 rs @ drop (i + length (r # rs)) cs,
          (take p A @ encode_chunk (norm_rec fp r)) @
            concat (map (\<lambda>r. encode_chunk (norm_rec fp r)) rs) @ rest,
          ?p1 + length (concat (map encode_chunk rs)))"
    using ih[unfolded c1 c2 t1] by simp
  also have "\<dots> =
     Inr (take i cs @ chunks_from p (r # rs) @ drop (i + length (r # rs)) cs,
          take p A @ concat (map (\<lambda>r. encode_chunk (norm_rec fp r)) (r # rs)) @ rest,
          p + length (concat (map encode_chunk (r # rs))))"
    by simp
  finally show ?case .
qed


lemma length_chunks_from [simp]: "length (chunks_from p rs) = length rs"
  by (induction rs arbitrary: p) simp_all

lemma chunks_from_nth:
  "i < length rs \<Longrightarrow>
   chunks_from p rs ! i = chunk_at (p + length (concat (map encode_chunk (take i rs)))) (rs ! i)"
proof (induction rs arbitrary: p i)
  case Nil
  then show ?case by simp
next
  case (Cons r rs)
  show ?case
  proof (cases i)
    case 0
    then show ?thesis by simp
  next
    case (Suc j)
    then show ?thesis using Cons.prems Cons.IH[of j "p + length (encode_chunk r)"]
      by (simp add: add.assoc)
  qed
qed

lemma length_concat_norm:
  "length (concat (map (\<lambda>r. encode_chunk (norm_rec fp r)) rs)) =
   length (concat (map encode_chunk rs))"
  by (induction rs) simp_all

lemma ci_load_encoded:
  assumes "wf_file rs"
  shows "ci_load fp (Some (encode_file rs)) =
     Inr (Some \<lparr>arena = u32_bytes (word_of_nat (length rs)) @
                    concat (map (\<lambda>r. encode_chunk (norm_rec fp r)) rs),
                N = word_of_nat (length rs),
                chunks = chunks_from 4 rs\<rparr>)"
proof -
  let ?n = "word_of_nat (length rs) :: 32 word"
  let ?A = "encode_file rs"
  let ?cs = "replicate (unat ?n) zero_chunk"
  from assms have wf: "list_all wf_chunk rs" and n: "unat ?n = length rs"
    by (simp_all add: wf_file_def unat_length)
  have "drop 0 ?A = u32_bytes ?n @ concat (map encode_chunk rs)"
    by (simp add: encode_file_def)
  then have r: "read_u32 ?A 0 = Inr (?n, 0 + 4)" by (rule read_u32_drop)
  have d: "drop 4 ?A = concat (map encode_chunk rs) @ []"
    by (simp add: encode_file_def)
  have l: "4 \<le> length ?A" by (simp add: encode_file_def)
  have t: "take 4 ?A = u32_bytes ?n" by (simp add: encode_file_def)
  have "load_loop fp ?n 0 (?cs, ?A, 4) =
     Inr (take 0 ?cs @ chunks_from 4 rs @ drop (0 + length rs) ?cs,
          take 4 ?A @ concat (map (\<lambda>r. encode_chunk (norm_rec fp r)) rs) @ [],
          4 + length (concat (map encode_chunk rs)))"
    using n by (intro load_loop_drop[OF wf d l]) simp_all
  then have "load_loop fp ?n 0 (?cs, ?A, 4) =
     Inr (chunks_from 4 rs,
          u32_bytes ?n @ concat (map (\<lambda>r. encode_chunk (norm_rec fp r)) rs),
          4 + length (concat (map encode_chunk rs)))"
    using n t by simp
  then show ?thesis using r by (simp add: ci_load_def)
qed

lemma drop_concat_nth:
  assumes "i < length rs"
  shows "drop (length (concat (map f (take i rs)))) (concat (map f rs)) =
         f (rs ! i) @ concat (map f (drop (Suc i) rs))"
proof -
  have "concat (map f rs) = concat (map f (take i rs @ rs ! i # drop (Suc i) rs))"
    using assms by (simp add: id_take_nth_drop[symmetric])
  then show ?thesis by simp
qed

lemma load_reads_back:
  assumes "wf_file rs"
  shows "\<exists>ci. ci_load fp (Some (encode_file rs)) = Inr (Some ci) \<and>
           unat (N ci) = length rs \<and>
           (\<forall>i<length rs. reads_back fp ci (word_of_nat i) (rs ! i))"
proof -
  let ?n = "word_of_nat (length rs) :: 32 word"
  let ?enc = "\<lambda>r. encode_chunk (norm_rec fp r)"
  let ?ci = "\<lparr>arena = u32_bytes ?n @ concat (map ?enc rs), N = ?n, chunks = chunks_from 4 rs\<rparr>"
  from assms have wf: "list_all wf_chunk rs" and len: "length rs < 4294967296"
    by (simp_all add: wf_file_def)
  have n: "unat ?n = length rs" using len by (simp add: unat_length)
  have rb: "reads_back fp ?ci (word_of_nat i) (rs ! i)" if "i < length rs" for i
  proof -
    note i = that
    let ?r = "rs ! i"
    let ?p = "4 + length (concat (map encode_chunk (take i rs)))"
    have ui: "unat (word_of_nat i :: 32 word) = i" using i len by (simp add: unat_length)
    have wr: "wf_chunk ?r" using wf i by (simp add: list_all_length)
    then have wn: "wf_chunk (norm_rec fp ?r)" by (simp add: wf_norm_rec)
    have c: "chunks ?ci ! i = chunk_at ?p ?r" using i by (simp add: chunks_from_nth)
    have "drop ?p (arena ?ci) =
            drop (length (concat (map ?enc (take i rs)))) (concat (map ?enc rs))"
      by (simp add: length_concat_norm)
    then have d: "drop ?p (arena ?ci) =
            encode_chunk (norm_rec fp ?r) @ concat (map ?enc (drop (Suc i) rs))"
      using drop_concat_nth[OF i, of ?enc] by simp
    have dl: "length (s_emb ?r) < 4294967296" using wr by (simp add: wf_chunk_def)
    from views_drop[OF d wn]
    show ?thesis
      unfolding reads_back_def ci_get_id_def ci_get_parent_def ci_get_file_def ci_get_ext_def
        ci_get_text_def ci_get_start_def ci_get_end_def ui c
      using dl
      by (simp add: chunk_at_norm_rec norm_rec_def) (simp add: chunk_at_def unat_length)
  qed
  have "ci_load fp (Some (encode_file rs)) = Inr (Some ?ci)"
    using assms by (rule ci_load_encoded)
  moreover have "unat (N ?ci) = length rs" using n by simp
  ultimately show ?thesis using rb by blast
qed

lemma sample_file_encoded: "encode_file [sample_record] = sample_file"
  by code_simp

lemma sample_file_loaded: "ci_load arm_fpu (Some sample_file) = Inr (Some sample_index)"
  by code_simp

text \<open>
  C5, as the code has it.  For every well-formed list of records, loading the file that
  holds them succeeds, and for every record the accessors give pointers behind which
  the bytes of each string lie in the string's length, and the two line numbers and the
  dimension as written.  The strings are not terminated in the file, and the accessors
  return no length.  An embedding that is already of unit length is numerically
  unchanged within \<open>1/1000\<close>: every component read back from the loaded corpus differs
  from the written component by at most that.
\<close>

theorem load_round_trip:
  assumes "wf_file rs"
  shows "\<exists>ci. ci_load arm_fpu (Some (encode_file rs)) = Inr (Some ci) \<and>
           unat (N ci) = length rs \<and>
           (\<forall>i<length rs.
              reads_back arm_fpu ci (word_of_nat i) (rs ! i) \<and>
              (unit_embedding (s_emb (rs ! i)) \<longrightarrow>
                 embedding_kept (1 / 1000) ci (word_of_nat i) (rs ! i)))"
proof -
  from load_reads_back[OF assms, of arm_fpu] obtain ci where
    l: "ci_load arm_fpu (Some (encode_file rs)) = Inr (Some ci)"
    and n: "unat (N ci) = length rs"
    and r: "\<forall>i<length rs. reads_back arm_fpu ci (word_of_nat i) (rs ! i)"
    by blast
  have "embedding_kept (1 / 1000) ci (word_of_nat i) (rs ! i)"
    if i: "i < length rs" and u: "unit_embedding (s_emb (rs ! i))" for i
  proof -
    let ?r = "rs ! i"
    let ?c = "chunks ci ! unat (word_of_nat i :: 32 word)"
    let ?v = "map decode32 (s_emb ?r)"
    let ?v' = "norm_neon arm_fpu ?v (length (s_emb ?r))"
    from r i have rb: "reads_back arm_fpu ci (word_of_nat i) ?r" by blast
    then have d: "unat (c_dim ?c) = length (s_emb ?r)"
      and w: "words_at (arena ci) (c_emb ?c) (length (s_emb ?r)) = normalized arm_fpu ?r"
      by (simp_all add: reads_back_def)
    have "emb_of arm_fpu ci ?c = map decode32 (normalized arm_fpu ?r)"
      using d w by (simp add: emb_of_def floats_at_words) (simp add: arm_fpu_def)
    also have "normalized arm_fpu ?r = map encode32 ?v'"
      by (simp add: normalized_def arm_fpu_def)
    also have "map decode32 (map encode32 ?v') = ?v'"
      by (intro decode_encode_norm_neon) simp
    finally show ?thesis
      using unit_embedding_kept[OF u] by (simp add: embedding_kept_def)
  qed
  then show ?thesis using l n r by blast
qed

theorem load_round_trip_witness:
  "wf_file [sample_record] \<and>
   unit_embedding (s_emb sample_record) \<and>
   encode_file [sample_record] = sample_file \<and>
   ci_load arm_fpu (Some sample_file) = Inr (Some sample_index) \<and>
   reads_back arm_fpu sample_index 0 sample_record \<and>
   bytes_at (arena sample_index) (ci_get_text sample_index 0) 2 = [102, 103] \<and>
   embedding_kept (1 / 1000) sample_index 0 sample_record \<and>
   map decode32 (s_emb sample_record) = [Num 1] \<and>
   emb_of arm_fpu sample_index (chunks sample_index ! 0) = [Num (16769073 / 16777216)]"
proof -
  have w: "wf_file [sample_record]"
    by (simp add: wf_file_def wf_chunk_def sample_record_def)
  have u: "unit_embedding (s_emb sample_record)" by code_simp
  note e = sample_file_encoded and l = sample_file_loaded
  have d: "map decode32 (s_emb sample_record) = [Num 1]" by code_simp
  have d': "emb_of arm_fpu sample_index (chunks sample_index ! 0) = [Num (16769073 / 16777216)]"
    by code_simp
  from load_round_trip[OF w] obtain ci where
    c: "ci_load arm_fpu (Some (encode_file [sample_record])) = Inr (Some ci)"
    and r: "\<forall>i<length [sample_record].
              reads_back arm_fpu ci (word_of_nat i) ([sample_record] ! i) \<and>
              (unit_embedding (s_emb ([sample_record] ! i)) \<longrightarrow>
                 embedding_kept (1 / 1000) ci (word_of_nat i) ([sample_record] ! i))"
    by blast
  from c e l have "ci = sample_index" by simp
  with r have rb: "reads_back arm_fpu sample_index 0 sample_record"
    and k: "unit_embedding (s_emb sample_record) \<longrightarrow>
              embedding_kept (1 / 1000) sample_index 0 sample_record"
    by simp_all
  from rb have b: "bytes_at (arena sample_index) (ci_get_text sample_index 0) 2 = [102, 103]"
    by (simp add: reads_back_def sample_record_def numeral_2_eq_2)
  from k u have "embedding_kept (1 / 1000) sample_index 0 sample_record" by blast
  with w u e l rb b d d' show ?thesis by blast
qed

text \<open>
  C5, as the specification has it, fails for the strings: the string read through the
  pointer that \<^verbatim>\<open>ci_get_id\<close> returns runs on into the length prefix of the next field.
  For the id \<open>a\<close> followed by a parent of two bytes it is \<open>a\<close> and the byte 2; for the
  text \<open>fg\<close> followed by the dimension 1 it is \<open>fg\<close> and the byte 1.
\<close>

theorem accessor_string_runs_on:
  "ci_load arm_fpu (Some (encode_file [sample_record])) = Inr (Some sample_index) \<and>
   s_id sample_record = [97] \<and>
   c_string (arena sample_index) (ci_get_id sample_index 0) = Some [97, 2] \<and>
   s_text sample_record = [102, 103] \<and>
   c_string (arena sample_index) (ci_get_text sample_index 0) = Some [102, 103, 1]"
proof -
  have "s_id sample_record = [97]" "s_text sample_record = [102, 103]"
    by (simp_all add: sample_record_def)
  moreover have "c_string (arena sample_index) (ci_get_id sample_index 0) = Some [97, 2]"
    by code_simp
  moreover have "c_string (arena sample_index) (ci_get_text sample_index 0) = Some [102, 103, 1]"
    by code_simp
  ultimately show ?thesis
    using sample_file_encoded sample_file_loaded by simp
qed

text \<open>
  C2.  The loader compares no length with the size of the arena.  On a file that
  announces one record and an id of five bytes and ends after two of them, it moves
  the read pointer behind the end and reads the next length prefix outside the arena.
  No file that could be opened makes it return \<^verbatim>\<open>NULL\<close>: the only error it reports is
  the failure to open the file.
\<close>

theorem load_reads_past_end:
  "ci_load fp (Some short_file) = Inl ArenaOutOfBounds \<and>
   (\<forall>buf. ci_load fp (Some buf) \<noteq> Inr None) \<and>
   ci_load fp None = Inr None"
proof (intro conjI allI)
  show "ci_load fp (Some short_file) = Inl ArenaOutOfBounds"
    by (simp add: ci_load_def short_file_def read_u32_def u32_at_def load_loop.simps
        load_chunk_def read_str_def)
  show "ci_load fp (Some buf) \<noteq> Inr None" for buf
    by (simp add: ci_load_def split: sum.splits prod.splits)
  show "ci_load fp None = Inr None" by (simp add: ci_load_def)
qed

end
